theory Spec2Isabelle
  imports Main
begin

section \<open>The stand-alone driver of the SAT solver: \<^verbatim>\<open>main.c\<close>\<close>

text \<open>
  The theory embeds the DIMACS parser (\<^verbatim>\<open>next\<close>, \<^verbatim>\<open>parse\<close>), the witness printer
  (\<^verbatim>\<open>print_value\<close>, \<^verbatim>\<open>flush_printed_values\<close>), the signal handler (\<^verbatim>\<open>catch_signal\<close>)
  and the option handling of \<^verbatim>\<open>main\<close>. The solver library behind \<^verbatim>\<open>satch.h\<close> is not
  part of the file; the only thing the parser does with it is to call
  \<^verbatim>\<open>satch_add\<close>, so the solver is represented by the list of numbers it has been handed.
\<close>

subsection \<open>C integers\<close>

text \<open>
  An \<^verbatim>\<open>int\<close> is 32 bits wide and a \<^verbatim>\<open>size_t\<close>, a \<^verbatim>\<open>uint64_t\<close> and a \<^verbatim>\<open>long\<close> 64 bits.
  Values are mathematical integers; the result of every arithmetic operation of the
  source is cut to its type, two's complement for the signed types.
\<close>

definition INT_MAX :: int where
  "INT_MAX = 2147483647"

definition INT_MIN :: int where
  "INT_MIN = - 2147483648"

definition MAX_SIZE_T :: nat where
  "MAX_SIZE_T = 18446744073709551615"

definition int32 :: "int \<Rightarrow> int" where
  "int32 k = signed_take_bit 31 k"

definition long64 :: "int \<Rightarrow> int" where
  "long64 k = signed_take_bit 63 k"

definition size_t :: "nat \<Rightarrow> nat" where
  "size_t n = n mod 18446744073709551616"

definition uint64 :: "nat \<Rightarrow> nat" where
  "uint64 n = n mod 18446744073709551616"

subsection \<open>Characters\<close>

abbreviation SPACE :: char where "SPACE \<equiv> CHR '' ''"
abbreviation TAB :: char where "TAB \<equiv> CHR 0x09"
abbreviation LF :: char where "LF \<equiv> CHR 0x0A"
abbreviation CR :: char where "CR \<equiv> CHR 0x0D"

text \<open>
  \<^verbatim>\<open>getc\<close> returns an \<^verbatim>\<open>int\<close>: the byte read or \<^verbatim>\<open>EOF\<close>. The model keeps the byte as a
  \<^typ>\<open>char option\<close> with \<^term>\<open>None\<close> for \<^verbatim>\<open>EOF\<close>; \<open>code\<close> is its value as a C \<^verbatim>\<open>int\<close>.
\<close>

abbreviation EOF :: "char option" where "EOF \<equiv> None"

definition code :: "char option \<Rightarrow> int" where
  "code ch = (case ch of None \<Rightarrow> - 1 | Some c \<Rightarrow> int (of_char c))"

definition isdigit :: "char option \<Rightarrow> bool" where
  "isdigit ch = (code (Some CHR ''0'') \<le> code ch \<and> code ch \<le> code (Some CHR ''9''))"

subsection \<open>The parser's state and its failures\<close>

text \<open>
  The static variables of \<^verbatim>\<open>main.c\<close> the parser reads and writes: the rest of the input
  file, the line number and byte count of \<^verbatim>\<open>next\<close>, the number of variables, and the
  solver as the list of the arguments of \<^verbatim>\<open>satch_add\<close> so far, oldest first.
\<close>

record pstate =
  infile :: "char list"
  lineno :: int
  bytes :: nat
  variables :: int
  solver :: "int list"

text \<open>One constructor for each call of \<^verbatim>\<open>parse_error\<close>, with the arguments of its format.\<close>

datatype format_error =
    ExpectedNewLineAfterCarriageReturn
  | UnexpectedEndOfFileInHeaderComment
  | ExpectedPOrC
  | ExpectedSpaceAfterP
  | ExpectedCAfterP
  | ExpectedNAfterPC
  | ExpectedFAfterPCN
  | ExpectedSpaceAfterPCNF
  | ExpectedDigitAfterPCNF
  | InvalidDigitAfterZeroInMaximumVariable
  | MaximumVariableWayTooBig
  | MaximumVariableTooBig
  | ExpectedSpaceAfterVariables int
  | ExpectedDigitAfterVariables int
  | InvalidDigitAfterZeroInNumberOfClauses
  | WayTooManyClausesSpecified
  | TooManyClausesSpecified
  | ExpectedNewLineAfterHeader int nat
  | UnexpectedEndOfFileInComment
  | ExpectedDigitAfterMinus
  | ExpectedNumber
  | MoreClausesThanSpecified
  | InvalidDigitAfterZeroInNumber
  | NumberWayTooLarge
  | NumberTooLarge
  | UnexpectedCharacterAfter int
  | LiteralExceedsMaximumVariable int int
  | TerminatingZeroMissing int
  | SingleClauseMissing
  | ClausesMissing nat

text \<open>
  \<^verbatim>\<open>parse_error\<close> prints the line number and the message and exits with status 1; a
  failed \<^verbatim>\<open>assert\<close> aborts. Both end the run, so a failure carries the state it happened in.
\<close>

datatype failure = FormatError format_error | AssertionFailed

type_synonym 'a result = "(failure \<times> pstate) + ('a \<times> pstate)"

definition parse_error :: "format_error \<Rightarrow> pstate \<Rightarrow> 'a result" where
  "parse_error e s = Inl (FormatError e, s)"

definition assertion_failed :: "pstate \<Rightarrow> 'a result" where
  "assertion_failed s = Inl (AssertionFailed, s)"

text \<open>Sequencing: the second step runs in the state the first one left, unless that failed.\<close>

definition seq :: "'a result \<Rightarrow> ('a \<Rightarrow> pstate \<Rightarrow> 'b result) \<Rightarrow> 'b result" where
  "seq m k = (case m of Inl f \<Rightarrow> Inl f | Inr (x, s) \<Rightarrow> k x s)"

subsection \<open>Reading a character: \<^verbatim>\<open>next\<close>\<close>

definition getc :: "pstate \<Rightarrow> char option \<times> pstate" where
  "getc s = (case infile s of [] \<Rightarrow> (EOF, s) | c # cs \<Rightarrow> (Some c, s\<lparr>infile := cs\<rparr>))"

definition next_ch :: "pstate \<Rightarrow> (char option) result" where
  "next_ch s0 =
     (let (res, s) = getc s0 in
      case (if res = Some CR then
              (let s = s\<lparr>bytes := uint64 (bytes s + 1)\<rparr>;
                   (res, s) = getc s
               in if res \<noteq> Some LF then parse_error ExpectedNewLineAfterCarriageReturn s
                  else Inr (res, s))
            else Inr (res, s)) of
        Inl f \<Rightarrow> Inl f
      | Inr (res, s) \<Rightarrow>
          (let s = (if res = Some LF then s\<lparr>lineno := long64 (lineno s + 1)\<rparr> else s);
               s = (if res \<noteq> EOF then s\<lparr>bytes := uint64 (bytes s + 1)\<rparr> else s)
           in Inr (res, s)))"

lemma next_ch_shorter:
  "next_ch s = Inr (Some c, s') \<Longrightarrow> length (infile s') < length (infile s)"
  by (auto simp: next_ch_def getc_def parse_error_def Let_def
           split: list.splits if_splits)

lemma next_ch_not_longer:
  "next_ch s = Inr (ch, s') \<Longrightarrow> length (infile s') \<le> length (infile s)"
  by (auto simp: next_ch_def getc_def parse_error_def Let_def
           split: list.splits if_splits)

subsection \<open>The header: lines 223 to 287 of \<^verbatim>\<open>parse\<close>\<close>

text \<open>The inner loop of lines 225 to 227: the rest of a comment line before the header.\<close>

function header_comment :: "pstate \<Rightarrow> unit result" where
  "header_comment s =
     (case next_ch s of
        Inl f \<Rightarrow> Inl f
      | Inr (ch, s1) \<Rightarrow>
          if ch \<noteq> Some LF then
            (if ch = EOF then parse_error UnexpectedEndOfFileInHeaderComment s1
             else header_comment s1)
          else Inr ((), s1))"
  by pat_completeness auto
termination
  by (relation "measure (\<lambda>s. length (infile s))") (auto dest: next_ch_shorter)

declare header_comment.simps [simp del]

lemma header_comment_not_longer:
  "header_comment s = Inr (u, s') \<Longrightarrow> length (infile s') \<le> length (infile s)"
proof (induction s rule: header_comment.induct)
  case (1 s)
  show ?case
  proof (cases "next_ch s")
    case (Inl f)
    with "1.prems" show ?thesis by (subst (asm) header_comment.simps) simp
  next
    case (Inr p)
    obtain ch s1 where p: "p = (ch, s1)" by (cases p)
    have le: "length (infile s1) \<le> length (infile s)"
      using Inr p by (auto dest: next_ch_not_longer)
    show ?thesis
    proof (cases "ch \<noteq> Some LF \<and> ch \<noteq> EOF")
      case True
      then have "header_comment s1 = Inr (u, s')"
        using "1.prems" Inr p by (subst (asm) header_comment.simps) auto
      with "1.IH" [OF Inr p [symmetric]] True le show ?thesis by simp
    next
      case False
      with "1.prems" Inr p le show ?thesis
        by (subst (asm) header_comment.simps) (auto simp: parse_error_def split: if_splits)
    qed
  qed
qed

text \<open>The outer loop of lines 223 to 228; it returns the first character that is not a \<^verbatim>\<open>c\<close>.\<close>

function header_comments :: "pstate \<Rightarrow> (char option) result" where
  "header_comments s =
     (case next_ch s of
        Inl f \<Rightarrow> Inl f
      | Inr (ch, s1) \<Rightarrow>
          if ch = Some CHR ''c'' then
            (case header_comment s1 of
               Inl f \<Rightarrow> Inl f
             | Inr (u, s2) \<Rightarrow> header_comments s2)
          else Inr (ch, s1))"
  by pat_completeness auto
termination
proof (relation "measure (\<lambda>s. length (infile s))")
  show "wf (measure (\<lambda>s. length (infile s)))" by simp
next
  fix s :: pstate and x2 ch s1 x2a u s2
  assume "next_ch s = Inr x2" "(ch, s1) = x2" "ch = Some CHR ''c''"
    "header_comment s1 = Inr x2a" "(u, s2) = x2a"
  then have "length (infile s1) < length (infile s)" "length (infile s2) \<le> length (infile s1)"
    by (auto dest: next_ch_shorter header_comment_not_longer)
  then show "(s2, s) \<in> measure (\<lambda>s. length (infile s))" by simp
qed

declare header_comments.simps [simp del]

text \<open>The loops of lines 241, 261 and 282: \<^verbatim>\<open>while ((ch = next ()) == ' ' || ch == '\t');\<close>\<close>

function skip_blanks :: "pstate \<Rightarrow> (char option) result" where
  "skip_blanks s =
     (case next_ch s of
        Inl f \<Rightarrow> Inl f
      | Inr (ch, s1) \<Rightarrow>
          if ch = Some SPACE \<or> ch = Some TAB then skip_blanks s1 else Inr (ch, s1))"
  by pat_completeness auto
termination
  by (relation "measure (\<lambda>s. length (infile s))") (auto dest: next_ch_shorter)

declare skip_blanks.simps [simp del]

text \<open>The loop of lines 246 to 258, on the static variable \<^verbatim>\<open>variables\<close>.\<close>

function variables_digits :: "pstate \<Rightarrow> (char option) result" where
  "variables_digits s =
     (case next_ch s of
        Inl f \<Rightarrow> Inl f
      | Inr (ch, s1) \<Rightarrow>
          if \<not> isdigit ch then Inr (ch, s1)
          else if variables s1 = 0 then
            parse_error InvalidDigitAfterZeroInMaximumVariable s1
          else if INT_MAX div 10 < variables s1 then
            parse_error MaximumVariableWayTooBig s1
          else
            (let s2 = s1\<lparr>variables := int32 (variables s1 * 10)\<rparr>;
                 digit = int32 (code ch - code (Some CHR ''0''))
             in if int32 (INT_MAX - digit) < variables s2 then
                  parse_error MaximumVariableTooBig s2
                else variables_digits (s2\<lparr>variables := int32 (variables s2 + digit)\<rparr>)))"
  by pat_completeness auto
termination
  by (relation "measure (\<lambda>s. length (infile s))")
     (auto simp: isdigit_def code_def dest: next_ch_shorter split: option.splits)

declare variables_digits.simps [simp del]

text \<open>The loop of lines 266 to 279, on the local variable \<^verbatim>\<open>specified_clauses\<close>.\<close>

function clauses_digits :: "nat \<Rightarrow> pstate \<Rightarrow> (nat \<times> char option) result" where
  "clauses_digits specified_clauses s =
     (case next_ch s of
        Inl f \<Rightarrow> Inl f
      | Inr (ch, s1) \<Rightarrow>
          if \<not> isdigit ch then Inr ((specified_clauses, ch), s1)
          else if specified_clauses = 0 then
            parse_error InvalidDigitAfterZeroInNumberOfClauses s1
          else if MAX_SIZE_T div 10 < specified_clauses then
            parse_error WayTooManyClausesSpecified s1
          else
            (let specified_clauses = size_t (specified_clauses * 10);
                 digit = int32 (code ch - code (Some CHR ''0''))
             in if size_t (MAX_SIZE_T + 18446744073709551616 - nat digit) < specified_clauses then
                  parse_error TooManyClausesSpecified s1
                else clauses_digits (size_t (specified_clauses + nat digit)) s1))"
  by pat_completeness auto
termination
  by (relation "measure (\<lambda>(n, s). length (infile s))")
     (auto simp: isdigit_def code_def dest: next_ch_shorter split: option.splits)

declare clauses_digits.simps [simp del]

text \<open>\<^verbatim>\<open>if (next () != c) parse_error (...)\<close>, as in lines 231 to 240.\<close>

definition expect :: "char \<Rightarrow> format_error \<Rightarrow> pstate \<Rightarrow> unit result" where
  "expect c e s =
     (case next_ch s of
        Inl f \<Rightarrow> Inl f
      | Inr (ch, s1) \<Rightarrow> if ch \<noteq> Some c then parse_error e s1 else Inr ((), s1))"

text \<open>
  Lines 223 to 242: the comments before the header and \<^verbatim>\<open>p cnf\<close>, up to the first character
  that is neither a space nor a tab, which is the result.
\<close>

definition header_start :: "pstate \<Rightarrow> (char option) result" where
  "header_start s0 =
     seq (header_comments s0) (\<lambda>ch s.
     if ch \<noteq> Some CHR ''p'' then parse_error ExpectedPOrC s else
     seq (expect SPACE ExpectedSpaceAfterP s) (\<lambda>u s.
     seq (expect CHR ''c'' ExpectedCAfterP s) (\<lambda>u s.
     seq (expect CHR ''n'' ExpectedNAfterPC s) (\<lambda>u s.
     seq (expect CHR ''f'' ExpectedFAfterPCN s) (\<lambda>u s.
     seq (expect SPACE ExpectedSpaceAfterPCNF s) (\<lambda>u s.
     skip_blanks s))))))"

text \<open>
  Lines 223 to 287. The result is \<^verbatim>\<open>specified_clauses\<close>; \<^verbatim>\<open>variables\<close> is in the state.
\<close>

definition parse_header :: "pstate \<Rightarrow> nat result" where
  "parse_header s0 =
     seq (header_start s0) (\<lambda>ch s.
     if \<not> isdigit ch then parse_error ExpectedDigitAfterPCNF s else
     seq (variables_digits (s\<lparr>variables := int32 (code ch - code (Some CHR ''0''))\<rparr>)) (\<lambda>ch s.
     if ch \<noteq> Some SPACE then parse_error (ExpectedSpaceAfterVariables (variables s)) s else
     seq (skip_blanks s) (\<lambda>ch s.
     if \<not> isdigit ch then parse_error (ExpectedDigitAfterVariables (variables s)) s else
     seq (clauses_digits (nat (int32 (code ch - code (Some CHR ''0'')))) s) (\<lambda>(specified_clauses, ch) s.
     seq (if ch = Some SPACE \<or> ch = Some TAB then skip_blanks s else Inr (ch, s)) (\<lambda>ch s.
     if ch \<noteq> Some LF then
       parse_error (ExpectedNewLineAfterHeader (variables s) specified_clauses) s
     else Inr (specified_clauses, s))))))"

subsection \<open>The clauses: lines 294 to 382 of \<^verbatim>\<open>parse\<close>\<close>

text \<open>The loop at the label \<^verbatim>\<open>COMMENT\<close>, lines 307 to 309: the rest of a comment line.\<close>

function comment :: "pstate \<Rightarrow> unit result" where
  "comment s =
     (case next_ch s of
        Inl f \<Rightarrow> Inl f
      | Inr (ch, s1) \<Rightarrow>
          if ch \<noteq> Some LF then
            (if ch = EOF then parse_error UnexpectedEndOfFileInComment s1
             else comment s1)
          else Inr ((), s1))"
  by pat_completeness auto
termination
  by (relation "measure (\<lambda>s. length (infile s))") (auto dest: next_ch_shorter)

declare comment.simps [simp del]

lemma comment_not_longer:
  "comment s = Inr (u, s') \<Longrightarrow> length (infile s') \<le> length (infile s)"
proof (induction s rule: comment.induct)
  case (1 s)
  show ?case
  proof (cases "next_ch s")
    case (Inl f)
    with "1.prems" show ?thesis by (subst (asm) comment.simps) simp
  next
    case (Inr p)
    obtain ch s1 where p: "p = (ch, s1)" by (cases p)
    have le: "length (infile s1) \<le> length (infile s)"
      using Inr p by (auto dest: next_ch_not_longer)
    show ?thesis
    proof (cases "ch \<noteq> Some LF \<and> ch \<noteq> EOF")
      case True
      then have "comment s1 = Inr (u, s')"
        using "1.prems" Inr p by (subst (asm) comment.simps) auto
      with "1.IH" [OF Inr p [symmetric]] True le show ?thesis by simp
    next
      case False
      with "1.prems" Inr p le show ?thesis
        by (subst (asm) comment.simps) (auto simp: parse_error_def split: if_splits)
    qed
  qed
qed

text \<open>The loop of lines 330 to 341, on the local variable \<^verbatim>\<open>lit\<close>.\<close>

function lit_digits :: "int \<Rightarrow> pstate \<Rightarrow> (int \<times> char option) result" where
  "lit_digits lit s =
     (case next_ch s of
        Inl f \<Rightarrow> Inl f
      | Inr (ch, s1) \<Rightarrow>
          if \<not> isdigit ch then Inr ((lit, ch), s1)
          else if lit = 0 then parse_error InvalidDigitAfterZeroInNumber s1
          else if INT_MAX div 10 < lit then parse_error NumberWayTooLarge s1
          else
            (let lit = int32 (lit * 10);
                 digit = int32 (code ch - code (Some CHR ''0''))
             in if int32 (INT_MAX - digit) < lit then parse_error NumberTooLarge s1
                else lit_digits (int32 (lit + digit)) s1))"
  by pat_completeness auto
termination
  by (relation "measure (\<lambda>(n, s). length (infile s))")
     (auto simp: isdigit_def code_def dest: next_ch_shorter split: option.splits)

declare lit_digits.simps [simp del]

lemma lit_digits_not_longer:
  "lit_digits lit s = Inr (r, s') \<Longrightarrow> length (infile s') \<le> length (infile s)"
proof (induction lit s rule: lit_digits.induct)
  case (1 lit s)
  show ?case
  proof (cases "next_ch s")
    case (Inl f)
    with "1.prems" show ?thesis by (subst (asm) lit_digits.simps) simp
  next
    case (Inr p)
    obtain ch s1 where p: "p = (ch, s1)" by (cases p)
    have le: "length (infile s1) \<le> length (infile s)"
      using Inr p by (auto dest: next_ch_not_longer)
    define digit where "digit = int32 (code ch - code (Some CHR ''0''))"
    show ?thesis
    proof (cases "isdigit ch \<and> lit \<noteq> 0 \<and> \<not> INT_MAX div 10 < lit
        \<and> \<not> int32 (INT_MAX - digit) < int32 (lit * 10)")
      case True
      then have "lit_digits (int32 (int32 (lit * 10) + digit)) s1 = Inr (r, s')"
        using "1.prems" Inr p
        by (subst (asm) lit_digits.simps) (auto simp: Let_def digit_def)
      with "1.IH" [OF Inr p [symmetric] _ _ _ refl refl] True le show ?thesis
        by (simp add: digit_def)
    next
      case False
      with "1.prems" Inr p le show ?thesis
        by (subst (asm) lit_digits.simps)
           (auto simp: parse_error_def Let_def digit_def split: if_splits)
    qed
  qed
qed

text \<open>
  Lines 313 to 323: the sign of a number whose first character \<open>ch0\<close> has been read. The
  result is the first digit and the sign.
\<close>

definition literal_sign :: "char option \<Rightarrow> pstate \<Rightarrow> (char option \<times> int) result" where
  "literal_sign ch0 s0 =
     (if ch0 = Some CHR ''-'' then
        seq (next_ch s0) (\<lambda>ch s.
        if \<not> isdigit ch then parse_error ExpectedDigitAfterMinus s
        else Inr ((ch, - 1), s))
      else if \<not> isdigit ch0 then parse_error ExpectedNumber s0
      else Inr ((ch0, 1), s0))"

text \<open>
  Lines 325 to 362: the check of the number of clauses, the digits, the sign, the checks
  of the number, and the call of \<^verbatim>\<open>satch_add\<close>. The result is \<^verbatim>\<open>parsed_clauses\<close>, \<^verbatim>\<open>lit\<close>
  and the character after the number.
\<close>

definition literal_number ::
    "nat \<Rightarrow> nat \<Rightarrow> char option \<times> int \<Rightarrow> pstate \<Rightarrow> (nat \<times> int \<times> char option) result" where
  "literal_number specified_clauses parsed_clauses = (\<lambda>(ch, sign) s.
     if \<not> parsed_clauses \<le> specified_clauses then assertion_failed s else
     if parsed_clauses = specified_clauses then parse_error MoreClausesThanSpecified s else
     seq (lit_digits (int32 (code ch - code (Some CHR ''0''))) s) (\<lambda>(lit, ch) s.
     if \<not> lit \<noteq> INT_MIN then assertion_failed s else
     let lit = int32 (lit * sign) in
     if ch \<noteq> Some SPACE \<and> ch \<noteq> Some TAB \<and> ch \<noteq> Some LF \<and> ch \<noteq> Some CHR ''c'' then
       parse_error (UnexpectedCharacterAfter lit) s else
     if \<not> lit \<noteq> INT_MIN then assertion_failed s else
     if int32 \<bar>lit\<bar> > variables s then
       parse_error (LiteralExceedsMaximumVariable lit (variables s)) s else
     let parsed_clauses = (if lit = 0 then size_t (parsed_clauses + 1) else parsed_clauses);
         s = s\<lparr>solver := solver s @ [lit]\<rparr>
     in Inr ((parsed_clauses, lit, ch), s)))"

text \<open>Lines 313 to 362: one number of the clauses, from its first character \<open>ch0\<close>.\<close>

definition literal ::
    "nat \<Rightarrow> nat \<Rightarrow> char option \<Rightarrow> pstate \<Rightarrow> (nat \<times> int \<times> char option) result" where
  "literal specified_clauses parsed_clauses ch0 s0 =
     seq (literal_sign ch0 s0) (literal_number specified_clauses parsed_clauses)"

lemma literal_not_longer:
  "literal m n ch s = Inr (r, s') \<Longrightarrow> length (infile s') \<le> length (infile s)"
  by (auto simp: literal_def literal_sign_def literal_number_def seq_def parse_error_def assertion_failed_def Let_def
           split: if_splits sum.splits prod.splits
           dest!: next_ch_not_longer lit_digits_not_longer)

text \<open>
  The loop of lines 297 to 370. After a number that is followed by \<^verbatim>\<open>c\<close> the source jumps
  to \<^verbatim>\<open>COMMENT\<close>, inside the branch for a comment, and goes on from there.
\<close>

function body :: "nat \<Rightarrow> nat \<times> int \<Rightarrow> pstate \<Rightarrow> (nat \<times> int) result" where
  "body specified_clauses (parsed_clauses, lit) s =
     (case next_ch s of
        Inl f \<Rightarrow> Inl f
      | Inr (ch, s1) \<Rightarrow>
          if ch = Some SPACE \<or> ch = Some TAB \<or> ch = Some LF then
            body specified_clauses (parsed_clauses, lit) s1
          else if ch = EOF then Inr ((parsed_clauses, lit), s1)
          else if ch = Some CHR ''c'' then
            (case comment s1 of
               Inl f \<Rightarrow> Inl f
             | Inr (u, s2) \<Rightarrow> body specified_clauses (parsed_clauses, lit) s2)
          else
            (case literal specified_clauses parsed_clauses ch s1 of
               Inl f \<Rightarrow> Inl f
             | Inr ((parsed_clauses', lit', ch'), s2) \<Rightarrow>
                 if ch' = Some CHR ''c'' then
                   (case comment s2 of
                      Inl f \<Rightarrow> Inl f
                    | Inr (u, s3) \<Rightarrow> body specified_clauses (parsed_clauses', lit') s3)
                 else body specified_clauses (parsed_clauses', lit') s2))"
  by pat_completeness auto
termination
proof (relation "measure (\<lambda>(m, p, s). length (infile s))", goal_cases)
  case 1
  show ?case by simp
next
  case (2 m n lit s p ch s1)
  then show ?case by (auto dest: next_ch_shorter)
next
  case (3 m n lit s p ch s1 q u s2)
  then have "length (infile s1) < length (infile s)" "length (infile s2) \<le> length (infile s1)"
    by (auto dest: next_ch_shorter comment_not_longer)
  then show ?case by simp
next
  case (4 m n lit s p ch s1 q r s2 n' t lit' ch' q' u s3)
  then obtain c where "ch = Some c" by (cases ch) auto
  with 4 have "length (infile s1) < length (infile s)"
      "length (infile s2) \<le> length (infile s1)" "length (infile s3) \<le> length (infile s2)"
    by (auto dest: next_ch_shorter comment_not_longer literal_not_longer)
  then show ?case by simp
next
  case (5 m n lit s p ch s1 q r s2 n' t lit' ch')
  then obtain c where "ch = Some c" by (cases ch) auto
  with 5 have "length (infile s1) < length (infile s)"
      "length (infile s2) \<le> length (infile s1)"
    by (auto dest: next_ch_shorter literal_not_longer)
  then show ?case by simp
qed

declare body.simps [simp del]

text \<open>The checks at the end of the file, lines 372 to 382.\<close>

definition check_end :: "nat \<Rightarrow> nat \<times> int \<Rightarrow> pstate \<Rightarrow> unit result" where
  "check_end specified_clauses = (\<lambda>(parsed_clauses, lit) s.
     if lit \<noteq> 0 then parse_error (TerminatingZeroMissing lit) s else
     if parsed_clauses < specified_clauses then
       (if size_t (parsed_clauses + 1) = specified_clauses then
          parse_error SingleClauseMissing s
        else
          parse_error
            (ClausesMissing (size_t (specified_clauses + 18446744073709551616 - parsed_clauses))) s)
     else Inr ((), s))"

text \<open>
  \<^verbatim>\<open>parse\<close>: the header, the clauses and the checks at the end of the file. The messages
  to \<^verbatim>\<open>stdout\<close>, the profiling calls and the closing of the file are left out.
\<close>

definition parse :: "pstate \<Rightarrow> unit result" where
  "parse s0 =
     seq (parse_header s0) (\<lambda>specified_clauses s.
     seq (body specified_clauses (0, 0) s) (check_end specified_clauses))"

text \<open>The static variables at the start of \<^verbatim>\<open>parse\<close>, reading the bytes \<open>cs\<close>.\<close>

definition initial :: "char list \<Rightarrow> pstate" where
  "initial cs = \<lparr>infile = cs, lineno = 1, bytes = 0, variables = 0, solver = []\<rparr>"

subsection \<open>What \<^verbatim>\<open>next\<close> reads, as a function of the remaining input\<close>

text \<open>
  The character \<^verbatim>\<open>next\<close> returns and the input it leaves depend on the remaining input
  only: a carriage return and its new line are read as one new line, and a carriage
  return before anything else is the parse error of line 193 (\<open>None\<close>). \<open>moved s rest s'\<close>
  says that \<open>s'\<close> is \<open>s\<close> with the input \<open>rest\<close> left and the same \<^verbatim>\<open>variables\<close> and solver;
  the line and byte counters are free.
\<close>

definition peek :: "char list \<Rightarrow> (char option \<times> char list) option" where
  "peek cs =
     (case cs of
        [] \<Rightarrow> Some (EOF, [])
      | c # ds \<Rightarrow>
          if c = CR then (case ds of [] \<Rightarrow> None | d # es \<Rightarrow> if d = LF then Some (Some LF, es) else None)
          else Some (Some c, ds))"

definition moved :: "pstate \<Rightarrow> char list \<Rightarrow> pstate \<Rightarrow> bool" where
  "moved s rest s' \<longleftrightarrow> infile s' = rest \<and> variables s' = variables s \<and> solver s' = solver s"

lemma next_ch_peek:
  "peek (infile s) = Some (ch, rest) \<Longrightarrow> \<exists>s'. next_ch s = Inr (ch, s') \<and> moved s rest s'"
  by (auto simp: peek_def next_ch_def getc_def moved_def Let_def parse_error_def
           split: list.splits if_splits)

lemma next_ch_peek_None:
  "peek (infile s) = None \<Longrightarrow>
     \<exists>s'. next_ch s = Inl (FormatError ExpectedNewLineAfterCarriageReturn, s')
        \<and> variables s' = variables s \<and> solver s' = solver s"
  by (auto simp: peek_def next_ch_def getc_def moved_def Let_def parse_error_def
           split: list.splits if_splits)

subsection \<open>Decimal numerals\<close>

text \<open>
  \<open>dec n\<close> is the decimal numeral of \<open>n\<close> without leading zeros, the way a DIMACS file
  writes a number; \<open>decval a ds\<close> is the value of the digits \<open>ds\<close> read after the value \<open>a\<close>.
\<close>

definition digit_char :: "nat \<Rightarrow> char" where
  "digit_char d = char_of (48 + d)"

fun dec :: "nat \<Rightarrow> char list" where
  "dec n = (if n < 10 then [digit_char n] else dec (n div 10) @ [digit_char (n mod 10)])"

declare dec.simps [simp del]

definition digit_val :: "char \<Rightarrow> nat" where
  "digit_val c = of_char c - 48"

definition is_digit :: "char \<Rightarrow> bool" where
  "is_digit c \<longleftrightarrow> 48 \<le> (of_char c :: nat) \<and> (of_char c :: nat) \<le> 57"

definition decval :: "nat \<Rightarrow> char list \<Rightarrow> nat" where
  "decval a ds = foldl (\<lambda>a c. a * 10 + digit_val c) a ds"

lemma isdigit_Some: "isdigit (Some c) = is_digit c"
  by (auto simp: isdigit_def is_digit_def code_def)

lemma isdigit_EOF: "\<not> isdigit EOF"
  by (simp add: isdigit_def code_def)

lemma digit_of_code:
  "is_digit c \<Longrightarrow> int32 (code (Some c) - code (Some CHR ''0'')) = int (digit_val c)"
  by (auto simp: is_digit_def code_def int32_def digit_val_def signed_take_bit_int_eq_self)

lemma digit_val_le: "is_digit c \<Longrightarrow> digit_val c \<le> 9"
  by (auto simp: is_digit_def digit_val_def)

lemma is_digit_digit_char: "d < 10 \<Longrightarrow> is_digit (digit_char d)"
  by (simp add: is_digit_def digit_char_def)

lemma digit_val_digit_char: "d < 10 \<Longrightarrow> digit_val (digit_char d) = d"
  by (simp add: digit_val_def digit_char_def)

lemma decval_Nil: "decval a [] = a"
  by (simp add: decval_def)

lemma decval_Cons: "decval a (c # cs) = decval (a * 10 + digit_val c) cs"
  by (simp add: decval_def)

lemma decval_snoc: "decval a (cs @ [c]) = decval a cs * 10 + digit_val c"
  by (simp add: decval_def)

lemma decval_ge: "a \<le> decval a ds"
proof (induction ds arbitrary: a)
  case Nil
  show ?case by (simp add: decval_Nil)
next
  case (Cons c cs)
  have "a \<le> a * 10 + digit_val c" by simp
  also have "\<dots> \<le> decval (a * 10 + digit_val c) cs" by (rule Cons.IH)
  finally show ?case by (simp add: decval_Cons)
qed

lemma dec_digits: "list_all is_digit (dec n)"
  by (induction n rule: dec.induct) (subst dec.simps, auto simp: is_digit_digit_char)

lemma decval_dec: "decval 0 (dec n) = n"
proof (induction n rule: dec.induct)
  case (1 n)
  show ?case
  proof (cases "n < 10")
    case True
    then show ?thesis
      by (subst dec.simps) (simp add: decval_Cons decval_Nil digit_val_digit_char)
  next
    case False
    with 1 show ?thesis
      by (subst dec.simps) (simp add: decval_snoc digit_val_digit_char)
  qed
qed

lemma dec_not_Nil: "dec n \<noteq> []"
  by (subst dec.simps) simp

lemma hd_dec_pos: "0 < n \<Longrightarrow> 0 < digit_val (hd (dec n))"
proof (induction n rule: dec.induct)
  case (1 n)
  show ?case
  proof (cases "n < 10")
    case True
    with "1.prems" show ?thesis
      by (subst dec.simps) (simp add: digit_val_digit_char)
  next
    case False
    then have "0 < n div 10" by simp
    with 1 False show ?thesis
      by (subst dec.simps) (simp add: dec_not_Nil)
  qed
qed

text \<open>A decimal numeral is a first digit and the digits after it; only \<open>0\<close> starts with \<open>0\<close>.\<close>

lemma dec_split:
  obtains c cs where "dec n = c # cs" "is_digit c" "list_all is_digit cs"
    "decval (digit_val c) cs = n" "cs = [] \<or> 0 < digit_val c"
proof -
  obtain c cs where eq: "dec n = c # cs"
    using dec_not_Nil [of n] by (cases "dec n") auto
  have d: "is_digit c" "list_all is_digit cs"
    using dec_digits [of n] by (simp_all add: eq)
  have v: "decval (digit_val c) cs = n"
    using decval_dec [of n] by (simp add: eq decval_Cons)
  have "cs = [] \<or> 0 < digit_val c"
  proof (cases "n = 0")
    case True
    then have "dec n = [digit_char 0]" by (subst dec.simps) simp
    with eq show ?thesis by simp
  next
    case False
    then show ?thesis using hd_dec_pos [of n] by (simp add: eq)
  qed
  with eq d v show ?thesis by (rule that)
qed

section \<open>The parser: what \<^verbatim>\<open>parse\<close> accepts and what it rejects\<close>

subsection \<open>Well-formed input\<close>

text \<open>
  A line ends with a new line or with a carriage return and a new line. A comment runs to
  the end of its line, so its text has neither character.
\<close>

datatype eol = Unix | Dos

fun render_eol :: "eol \<Rightarrow> char list" where
  "render_eol Unix = [LF]"
| "render_eol Dos = [CR, LF]"

definition plain :: "char list \<Rightarrow> bool" where
  "plain t \<longleftrightarrow> LF \<notin> set t \<and> CR \<notin> set t"

definition blanks :: "char list \<Rightarrow> bool" where
  "blanks t \<longleftrightarrow> list_all (\<lambda>c. c = SPACE \<or> c = TAB) t"

lemma moved_refl: "moved s (infile s) s"
  by (simp add: moved_def)

lemma moved_trans: "moved s r1 s1 \<Longrightarrow> moved s1 r2 s2 \<Longrightarrow> moved s r2 s2"
  by (simp add: moved_def)

lemma peek_Nil: "peek [] = Some (EOF, [])"
  by (simp add: peek_def)

lemma peek_Cons: "c \<noteq> CR \<Longrightarrow> peek (c # cs) = Some (Some c, cs)"
  by (simp add: peek_def)

lemma peek_eol: "peek (render_eol e @ rest) = Some (Some LF, rest)"
  by (cases e) (simp_all add: peek_def)

lemma is_digit_not_CR: "is_digit c \<Longrightarrow> c \<noteq> CR"
  by (auto simp: is_digit_def)

text \<open>The result of \<^verbatim>\<open>next\<close> on an input that starts with the character \<open>c\<close> or with a line end.\<close>

lemma next_ch_Cons:
  assumes "infile s = c # rest" and "c \<noteq> CR"
  obtains s' where "next_ch s = Inr (Some c, s')" and "moved s rest s'"
  using next_ch_peek [of s "Some c" rest] assms by (auto simp: peek_Cons)

lemma next_ch_eol:
  assumes "infile s = render_eol e @ rest"
  obtains s' where "next_ch s = Inr (Some LF, s')" and "moved s rest s'"
  using next_ch_peek [of s "Some LF" rest] assms by (auto simp: peek_eol)

subsection \<open>The loops on well-formed input\<close>

lemma header_comment_plain:
  assumes "plain t" and "infile s = t @ render_eol e @ rest"
  obtains s' where "header_comment s = Inr ((), s')" and "moved s rest s'"
proof -
  have "\<exists>s'. header_comment s = Inr ((), s') \<and> moved s rest s'"
    using assms
  proof (induction t arbitrary: s)
    case Nil
    then obtain s' where "next_ch s = Inr (Some LF, s')" "moved s rest s'"
      by (auto elim: next_ch_eol)
    then show ?case by (subst header_comment.simps) auto
  next
    case (Cons c t)
    from Cons.prems have c: "c \<noteq> LF" "c \<noteq> CR" and t: "plain t"
      by (auto simp: plain_def)
    from Cons.prems(2) c obtain s1 where
      1: "next_ch s = Inr (Some c, s1)" "moved s (t @ render_eol e @ rest) s1"
      by (auto elim: next_ch_Cons)
    then have "infile s1 = t @ render_eol e @ rest" by (simp add: moved_def)
    from Cons.IH [OF t this] obtain s' where
      2: "header_comment s1 = Inr ((), s')" "moved s1 rest s'" by auto
    have "header_comment s = Inr ((), s')"
      using 1 2 c by (subst header_comment.simps) simp
    with 1 2 show ?case by (auto intro: moved_trans)
  qed
  with that show thesis by auto
qed

lemma comment_plain:
  assumes "plain t" and "infile s = t @ render_eol e @ rest"
  obtains s' where "comment s = Inr ((), s')" and "moved s rest s'"
proof -
  have "\<exists>s'. comment s = Inr ((), s') \<and> moved s rest s'"
    using assms
  proof (induction t arbitrary: s)
    case Nil
    then obtain s' where "next_ch s = Inr (Some LF, s')" "moved s rest s'"
      by (auto elim: next_ch_eol)
    then show ?case by (subst comment.simps) auto
  next
    case (Cons c t)
    from Cons.prems have c: "c \<noteq> LF" "c \<noteq> CR" and t: "plain t"
      by (auto simp: plain_def)
    from Cons.prems(2) c obtain s1 where
      1: "next_ch s = Inr (Some c, s1)" "moved s (t @ render_eol e @ rest) s1"
      by (auto elim: next_ch_Cons)
    then have "infile s1 = t @ render_eol e @ rest" by (simp add: moved_def)
    from Cons.IH [OF t this] obtain s' where
      2: "comment s1 = Inr ((), s')" "moved s1 rest s'" by auto
    have "comment s = Inr ((), s')"
      using 1 2 c by (subst comment.simps) simp
    with 1 2 show ?case by (auto intro: moved_trans)
  qed
  with that show thesis by auto
qed

text \<open>Comment lines before the header, each with its text and its line end.\<close>

fun render_comment :: "char list \<times> eol \<Rightarrow> char list" where
  "render_comment (t, e) = CHR ''c'' # t @ render_eol e"

lemma header_comments_plain:
  assumes "list_all (\<lambda>(t, e). plain t) cms"
    and "infile s = concat (map render_comment cms) @ rest"
    and "peek rest = Some (ch, rest')" and "ch \<noteq> Some CHR ''c''"
  obtains s' where "header_comments s = Inr (ch, s')" and "moved s rest' s'"
proof -
  have "\<exists>s'. header_comments s = Inr (ch, s') \<and> moved s rest' s'"
    using assms(1,2)
  proof (induction cms arbitrary: s)
    case Nil
    then have "peek (infile s) = Some (ch, rest')" using assms(3) by simp
    from next_ch_peek [OF this] obtain s' where "next_ch s = Inr (ch, s')" "moved s rest' s'"
      by auto
    then show ?case using assms(4) by (subst header_comments.simps) auto
  next
    case (Cons cm cms)
    obtain t e where cm: "cm = (t, e)" by (cases cm)
    let ?rest = "concat (map render_comment cms) @ rest"
    from Cons.prems cm have t: "plain t" and cms: "list_all (\<lambda>(t, e). plain t) cms"
      and inp: "infile s = CHR ''c'' # t @ render_eol e @ ?rest"
      by auto
    from inp obtain s1 where
      1: "next_ch s = Inr (Some CHR ''c'', s1)" "moved s (t @ render_eol e @ ?rest) s1"
      by (auto elim: next_ch_Cons)
    then have "infile s1 = t @ render_eol e @ ?rest" by (simp add: moved_def)
    from header_comment_plain [OF t this] obtain s2 where
      2: "header_comment s1 = Inr ((), s2)" "moved s1 ?rest s2" by auto
    then have "infile s2 = ?rest" by (simp add: moved_def)
    from Cons.IH [OF cms this] obtain s' where
      3: "header_comments s2 = Inr (ch, s')" "moved s2 rest' s'" by auto
    have "header_comments s = Inr (ch, s')"
      using 1 2 3 by (subst header_comments.simps) simp
    with 1 2 3 show ?case by (auto intro: moved_trans)
  qed
  with that show thesis by auto
qed

lemma skip_blanks_blanks:
  assumes "blanks pad" and "infile s = pad @ rest"
    and "peek rest = Some (ch, rest')" and "ch \<noteq> Some SPACE" and "ch \<noteq> Some TAB"
  obtains s' where "skip_blanks s = Inr (ch, s')" and "moved s rest' s'"
proof -
  have "\<exists>s'. skip_blanks s = Inr (ch, s') \<and> moved s rest' s'"
    using assms(1,2)
  proof (induction pad arbitrary: s)
    case Nil
    then have "peek (infile s) = Some (ch, rest')" using assms(3) by simp
    from next_ch_peek [OF this] obtain s' where "next_ch s = Inr (ch, s')" "moved s rest' s'"
      by auto
    then show ?case using assms(4,5) by (subst skip_blanks.simps) auto
  next
    case (Cons c pad)
    from Cons.prems have c: "c = SPACE \<or> c = TAB" and pad: "blanks pad"
      by (auto simp: blanks_def)
    then have "c \<noteq> CR" by auto
    with Cons.prems(2) obtain s1 where
      1: "next_ch s = Inr (Some c, s1)" "moved s (pad @ rest) s1"
      by (auto elim: next_ch_Cons)
    then have "infile s1 = pad @ rest" by (simp add: moved_def)
    from Cons.IH [OF pad this] obtain s' where
      2: "skip_blanks s1 = Inr (ch, s')" "moved s1 rest' s'" by auto
    have "skip_blanks s = Inr (ch, s')"
      using 1 2 c by (subst skip_blanks.simps) auto
    with 1 2 show ?case by (auto intro: moved_trans)
  qed
  with that show thesis by auto
qed

lemma expect_Cons:
  assumes "infile s = c # rest" and "c \<noteq> CR"
  obtains s' where "expect c e s = Inr ((), s')" and "moved s rest s'"
proof -
  from assms obtain s' where "next_ch s = Inr (Some c, s')" "moved s rest s'"
    by (auto elim: next_ch_Cons)
  then show thesis by (intro that [of s']) (simp_all add: expect_def)
qed

lemma int32_id: "- 2147483648 \<le> k \<Longrightarrow> k \<le> 2147483647 \<Longrightarrow> int32 k = k"
  by (simp add: int32_def signed_take_bit_int_eq_self)

lemma size_t_id: "n \<le> 18446744073709551615 \<Longrightarrow> size_t n = n"
  by (simp add: size_t_def)

text \<open>
  One more digit \<open>d\<close> after the value \<open>a\<close>, when the new value fits an \<^verbatim>\<open>int\<close>: neither
  check of the loops of lines 246 and 330 fails, and no operation leaves the range.
\<close>

lemma int_digit_step:
  assumes "a * 10 + d \<le> 2147483647" and "d \<le> 9"
  shows "\<not> INT_MAX div 10 < int a"
    and "int32 (int a * 10) = int a * 10"
    and "int32 (INT_MAX - int d) = INT_MAX - int d"
    and "\<not> INT_MAX - int d < int a * 10"
    and "int32 (int a * 10 + int d) = int (a * 10 + d)"
  using assms by (simp_all add: INT_MAX_def int32_id)

lemma size_t_digit_step:
  assumes "a * 10 + d \<le> 18446744073709551615" and "d \<le> 9"
  shows "\<not> MAX_SIZE_T div 10 < a"
    and "size_t (a * 10) = a * 10"
    and "size_t (MAX_SIZE_T + 18446744073709551616 - d) = 18446744073709551615 - d"
    and "\<not> 18446744073709551615 - d < a * 10"
    and "size_t (a * 10 + d) = a * 10 + d"
proof -
  have "MAX_SIZE_T + 18446744073709551616 - d = 18446744073709551616 + (18446744073709551615 - d)"
    using assms(2) by (simp add: MAX_SIZE_T_def)
  then show "size_t (MAX_SIZE_T + 18446744073709551616 - d) = 18446744073709551615 - d"
    by (simp add: size_t_def)
qed (insert assms, simp_all add: MAX_SIZE_T_def size_t_def)

lemma decval_Cons_le: "decval a (d # ds) \<le> m \<Longrightarrow> a * 10 + digit_val d \<le> m"
  using decval_ge [of "a * 10 + digit_val d" ds] by (simp add: decval_Cons)

lemma variables_digits_value:
  assumes "list_all is_digit ds" and "ds = [] \<or> 0 < a" and "decval a ds \<le> 2147483647"
    and "infile s = ds @ rest" and "variables s = int a"
    and "peek rest = Some (ch, rest')" and "\<not> isdigit ch"
  obtains s' where "variables_digits s = Inr (ch, s')" and "infile s' = rest'"
    and "variables s' = int (decval a ds)" and "solver s' = solver s"
proof -
  have "\<exists>s'. variables_digits s = Inr (ch, s') \<and> infile s' = rest'
      \<and> variables s' = int (decval a ds) \<and> solver s' = solver s"
    using assms(1-5)
  proof (induction ds arbitrary: a s)
    case Nil
    then have "peek (infile s) = Some (ch, rest')" using assms(6) by simp
    from next_ch_peek [OF this] obtain s' where "next_ch s = Inr (ch, s')" "moved s rest' s'"
      by auto
    then show ?case using assms(7) Nil
      by (subst variables_digits.simps) (auto simp: moved_def decval_Nil)
  next
    case (Cons d ds)
    from Cons.prems have d: "is_digit d" and ds: "list_all is_digit ds" and a: "0 < a"
      by auto
    let ?a = "a * 10 + digit_val d"
    have le: "?a \<le> 2147483647" using Cons.prems(3) by (rule decval_Cons_le)
    note st = int_digit_step [OF le digit_val_le [OF d]]
    from Cons.prems(4) is_digit_not_CR [OF d] obtain s1 where
      1: "next_ch s = Inr (Some d, s1)" "moved s (ds @ rest) s1"
      by (auto elim: next_ch_Cons)
    let ?s2 = "s1\<lparr>variables := int ?a\<rparr>"
    have v1: "variables s1 = int a" using 1 Cons.prems(5) by (simp add: moved_def)
    have "\<exists>s'. variables_digits ?s2 = Inr (ch, s') \<and> infile s' = rest'
        \<and> variables s' = int (decval ?a ds) \<and> solver s' = solver ?s2"
      using ds a Cons.prems(3) 1 by (intro Cons.IH) (auto simp: decval_Cons moved_def)
    then obtain s' where 2: "variables_digits ?s2 = Inr (ch, s')" "infile s' = rest'"
      "variables s' = int (decval ?a ds)" "solver s' = solver s1" by auto
    have "variables_digits s = variables_digits ?s2"
      using 1 a st v1
      by (subst variables_digits.simps)
         (simp add: isdigit_Some d digit_of_code [OF d] Let_def)
    with 1 2 show ?case by (auto simp: decval_Cons moved_def)
  qed
  with that show thesis by auto
qed

lemma lit_digits_value:
  assumes "list_all is_digit ds" and "ds = [] \<or> 0 < a" and "decval a ds \<le> 2147483647"
    and "infile s = ds @ rest" and "peek rest = Some (ch, rest')" and "\<not> isdigit ch"
  obtains s' where "lit_digits (int a) s = Inr ((int (decval a ds), ch), s')"
    and "moved s rest' s'"
proof -
  have "\<exists>s'. lit_digits (int a) s = Inr ((int (decval a ds), ch), s') \<and> moved s rest' s'"
    using assms(1-4)
  proof (induction ds arbitrary: a s)
    case Nil
    then have "peek (infile s) = Some (ch, rest')" using assms(5) by simp
    from next_ch_peek [OF this] obtain s' where "next_ch s = Inr (ch, s')" "moved s rest' s'"
      by auto
    then show ?case using assms(6)
      by (subst lit_digits.simps) (auto simp: decval_Nil)
  next
    case (Cons d ds)
    from Cons.prems have d: "is_digit d" and ds: "list_all is_digit ds" and a: "0 < a"
      by auto
    let ?a = "a * 10 + digit_val d"
    have le: "?a \<le> 2147483647" using Cons.prems(3) by (rule decval_Cons_le)
    note st = int_digit_step [OF le digit_val_le [OF d]]
    from Cons.prems(4) is_digit_not_CR [OF d] obtain s1 where
      1: "next_ch s = Inr (Some d, s1)" "moved s (ds @ rest) s1"
      by (auto elim: next_ch_Cons)
    have "\<exists>s'. lit_digits (int ?a) s1 = Inr ((int (decval ?a ds), ch), s') \<and> moved s1 rest' s'"
      using ds a Cons.prems(3) 1 by (intro Cons.IH) (auto simp: decval_Cons moved_def)
    then obtain s' where 2: "lit_digits (int ?a) s1 = Inr ((int (decval ?a ds), ch), s')"
      "moved s1 rest' s'" by auto
    have "lit_digits (int a) s = lit_digits (int ?a) s1"
      using 1 a st
      by (subst lit_digits.simps)
         (simp add: isdigit_Some d digit_of_code [OF d] Let_def)
    with 1 2 show ?case by (auto simp: decval_Cons intro: moved_trans)
  qed
  with that show thesis by auto
qed

lemma clauses_digits_value:
  assumes "list_all is_digit ds" and "ds = [] \<or> 0 < a"
    and "decval a ds \<le> 18446744073709551615"
    and "infile s = ds @ rest" and "peek rest = Some (ch, rest')" and "\<not> isdigit ch"
  obtains s' where "clauses_digits a s = Inr ((decval a ds, ch), s')"
    and "moved s rest' s'"
proof -
  have "\<exists>s'. clauses_digits a s = Inr ((decval a ds, ch), s') \<and> moved s rest' s'"
    using assms(1-4)
  proof (induction ds arbitrary: a s)
    case Nil
    then have "peek (infile s) = Some (ch, rest')" using assms(5) by simp
    from next_ch_peek [OF this] obtain s' where "next_ch s = Inr (ch, s')" "moved s rest' s'"
      by auto
    then show ?case using assms(6)
      by (subst clauses_digits.simps) (auto simp: decval_Nil)
  next
    case (Cons d ds)
    from Cons.prems have d: "is_digit d" and ds: "list_all is_digit ds" and a: "0 < a"
      by auto
    let ?a = "a * 10 + digit_val d"
    have le: "?a \<le> 18446744073709551615" using Cons.prems(3) by (rule decval_Cons_le)
    note st = size_t_digit_step [OF le digit_val_le [OF d]]
    from Cons.prems(4) is_digit_not_CR [OF d] obtain s1 where
      1: "next_ch s = Inr (Some d, s1)" "moved s (ds @ rest) s1"
      by (auto elim: next_ch_Cons)
    have "\<exists>s'. clauses_digits ?a s1 = Inr ((decval ?a ds, ch), s') \<and> moved s1 rest' s'"
      using ds a Cons.prems(3) 1 by (intro Cons.IH) (auto simp: decval_Cons moved_def)
    then obtain s' where 2: "clauses_digits ?a s1 = Inr ((decval ?a ds, ch), s')"
      "moved s1 rest' s'" by auto
    have "clauses_digits a s = clauses_digits ?a s1"
      using 1 a st
      by (subst clauses_digits.simps)
         (simp add: isdigit_Some d digit_of_code [OF d] Let_def)
    with 1 2 show ?case by (auto simp: decval_Cons intro: moved_trans)
  qed
  with that show thesis by auto
qed

subsection \<open>Well-formed headers\<close>

text \<open>
  A header as the grammar of lines 223 to 287 takes it: comment lines, \<^verbatim>\<open>p cnf\<close> and a
  space, spaces and tabs, the number of variables, a space, spaces and tabs, the number
  of clauses, spaces and tabs, and the end of the line.
\<close>

record header =
  comments :: "(char list \<times> eol) list"
  pad1 :: "char list"
  nvars :: nat
  pad2 :: "char list"
  nclauses :: nat
  pad3 :: "char list"
  ending :: eol

definition render_header :: "header \<Rightarrow> char list" where
  "render_header h =
     concat (map render_comment (comments h)) @ ''p cnf '' @ pad1 h @ dec (nvars h) @
     '' '' @ pad2 h @ dec (nclauses h) @ pad3 h @ render_eol (ending h)"

definition wf_header :: "header \<Rightarrow> bool" where
  "wf_header h \<longleftrightarrow>
     list_all (\<lambda>(t, e). plain t) (comments h) \<and> blanks (pad1 h) \<and> blanks (pad2 h) \<and>
     blanks (pad3 h) \<and> nvars h \<le> 2147483647 \<and> nclauses h \<le> 18446744073709551615"

lemma is_digit_not_blank: "is_digit c \<Longrightarrow> c \<noteq> SPACE \<and> c \<noteq> TAB \<and> c \<noteq> LF \<and> c \<noteq> CHR ''c'' \<and> c \<noteq> CHR ''-''"
  by (auto simp: is_digit_def)

lemma not_isdigit_blank:
  "\<not> isdigit (Some SPACE)" "\<not> isdigit (Some TAB)" "\<not> isdigit (Some LF)"
  "\<not> isdigit (Some CHR ''c'')"
  by (simp_all add: isdigit_Some is_digit_def)

lemma header_start_wf:
  assumes "list_all (\<lambda>(t, e). plain t) cms" and "blanks pad"
    and "infile s = concat (map render_comment cms) @ ''p cnf '' @ pad @ rest"
    and "peek rest = Some (ch, rest')" and "ch \<noteq> Some SPACE" and "ch \<noteq> Some TAB"
  obtains s' where "header_start s = Inr (ch, s')" and "moved s rest' s'"
proof -
  let ?r5 = "pad @ rest"
  have inp: "infile s = concat (map render_comment cms) @
      CHR ''p'' # SPACE # CHR ''c'' # CHR ''n'' # CHR ''f'' # SPACE # ?r5"
    using assms(3) by simp
  from header_comments_plain [OF assms(1) inp, of "Some CHR ''p''"] obtain s0 where
    0: "header_comments s = Inr (Some CHR ''p'', s0)"
      "moved s (SPACE # CHR ''c'' # CHR ''n'' # CHR ''f'' # SPACE # ?r5) s0"
    by (auto simp: peek_Cons)
  from 0 obtain s1 where
    1: "expect SPACE ExpectedSpaceAfterP s0 = Inr ((), s1)"
      "moved s0 (CHR ''c'' # CHR ''n'' # CHR ''f'' # SPACE # ?r5) s1"
    by (auto simp: moved_def elim: expect_Cons [where e = ExpectedSpaceAfterP])
  from 1 obtain s2 where
    2: "expect CHR ''c'' ExpectedCAfterP s1 = Inr ((), s2)"
      "moved s1 (CHR ''n'' # CHR ''f'' # SPACE # ?r5) s2"
    by (auto simp: moved_def elim: expect_Cons [where e = ExpectedCAfterP])
  from 2 obtain s3 where
    3: "expect CHR ''n'' ExpectedNAfterPC s2 = Inr ((), s3)"
      "moved s2 (CHR ''f'' # SPACE # ?r5) s3"
    by (auto simp: moved_def elim: expect_Cons [where e = ExpectedNAfterPC])
  from 3 obtain s4 where
    4: "expect CHR ''f'' ExpectedFAfterPCN s3 = Inr ((), s4)" "moved s3 (SPACE # ?r5) s4"
    by (auto simp: moved_def elim: expect_Cons [where e = ExpectedFAfterPCN])
  from 4 obtain s5 where
    5: "expect SPACE ExpectedSpaceAfterPCNF s4 = Inr ((), s5)" "moved s4 ?r5 s5"
    by (auto simp: moved_def elim: expect_Cons [where e = ExpectedSpaceAfterPCNF])
  have "infile s5 = pad @ rest" using 5 by (simp add: moved_def)
  from skip_blanks_blanks [OF assms(2) this assms(4,5,6)] obtain s6 where
    6: "skip_blanks s5 = Inr (ch, s6)" "moved s5 rest' s6"
    by auto
  have "header_start s = Inr (ch, s6)"
    using 0 1 2 3 4 5 6 by (simp add: header_start_def seq_def)
  moreover have "moved s rest' s6"
    using 0 1 2 3 4 5 6 by (simp add: moved_def)
  ultimately show thesis by (rule that)
qed

lemma parse_header_wf:
  assumes "wf_header h" and "infile s = render_header h @ rest"
  obtains s' where "parse_header s = Inr (nclauses h, s')" and "infile s' = rest"
    and "variables s' = int (nvars h)" and "solver s' = solver s"
proof -
  from assms(1) have cms: "list_all (\<lambda>(t, e). plain t) (comments h)"
    and p1: "blanks (pad1 h)" and p2: "blanks (pad2 h)" and p3: "blanks (pad3 h)"
    and v: "nvars h \<le> 2147483647" and m: "nclauses h \<le> 18446744073709551615"
    by (simp_all add: wf_header_def)
  obtain vc vcs where vd: "dec (nvars h) = vc # vcs" "is_digit vc" "list_all is_digit vcs"
    "decval (digit_val vc) vcs = nvars h" "vcs = [] \<or> 0 < digit_val vc"
    by (rule dec_split [of "nvars h"])
  obtain mc mcs where md: "dec (nclauses h) = mc # mcs" "is_digit mc" "list_all is_digit mcs"
    "decval (digit_val mc) mcs = nclauses h" "mcs = [] \<or> 0 < digit_val mc"
    by (rule dec_split [of "nclauses h"])
  let ?r9 = "pad3 h @ render_eol (ending h) @ rest"
  let ?r8 = "mcs @ ?r9"
  let ?r7 = "pad2 h @ mc # ?r8"
  let ?r6 = "vcs @ SPACE # ?r7"
  have "infile s = concat (map render_comment (comments h)) @ ''p cnf '' @ pad1 h @ vc # ?r6"
    using assms(2) by (simp add: render_header_def vd md)
  from header_start_wf [OF cms p1 this, of "Some vc" ?r6] obtain s6 where
    6: "header_start s = Inr (Some vc, s6)" "moved s ?r6 s6"
    using is_digit_not_blank [OF vd(2)] is_digit_not_CR [OF vd(2)] by (auto simp: peek_Cons)
  let ?s6 = "s6\<lparr>variables := int (digit_val vc)\<rparr>"
  have "infile ?s6 = vcs @ SPACE # ?r7" "variables ?s6 = int (digit_val vc)"
    using 6 by (simp_all add: moved_def)
  from variables_digits_value [OF vd(3,5) _ this, of "Some SPACE" ?r7] obtain s7 where
    7: "variables_digits ?s6 = Inr (Some SPACE, s7)" "infile s7 = ?r7"
      "variables s7 = int (nvars h)" "solver s7 = solver s6"
    using v vd(4) by (auto simp: peek_Cons not_isdigit_blank)
  from skip_blanks_blanks [OF p2 7(2), of "Some mc" ?r8] obtain s8 where
    8: "skip_blanks s7 = Inr (Some mc, s8)" "moved s7 ?r8 s8"
    using is_digit_not_blank [OF md(2)] is_digit_not_CR [OF md(2)] by (auto simp: peek_Cons)
  have i8: "infile s8 = mcs @ ?r9" using 8 by (simp add: moved_def)
  have "\<exists>s'. seq (clauses_digits (digit_val mc) s8) (\<lambda>(specified_clauses, ch) s.
     seq (if ch = Some SPACE \<or> ch = Some TAB then skip_blanks s else Inr (ch, s)) (\<lambda>ch s.
     if ch \<noteq> Some LF then
       parse_error (ExpectedNewLineAfterHeader (variables s) specified_clauses) s
     else Inr (specified_clauses, s))) = Inr (nclauses h, s') \<and> moved s8 rest s'"
  proof (cases "pad3 h")
    case Nil
    from clauses_digits_value [OF md(3,5) _ i8, of "Some LF" rest] obtain s9 where
      "clauses_digits (digit_val mc) s8 = Inr ((nclauses h, Some LF), s9)" "moved s8 rest s9"
      using m md(4) Nil by (auto simp: peek_eol not_isdigit_blank)
    then show ?thesis by (auto simp: seq_def)
  next
    case (Cons b bs)
    with p3 have b: "b = SPACE \<or> b = TAB" and bs: "blanks bs" by (auto simp: blanks_def)
    let ?r10 = "bs @ render_eol (ending h) @ rest"
    from b have "peek ?r9 = Some (Some b, ?r10)" "\<not> isdigit (Some b)"
      using Cons by (auto simp: peek_Cons not_isdigit_blank)
    from clauses_digits_value [OF md(3,5) _ i8 this] obtain s9 where
      9: "clauses_digits (digit_val mc) s8 = Inr ((nclauses h, Some b), s9)" "moved s8 ?r10 s9"
      using m md(4) by auto
    then have "infile s9 = bs @ render_eol (ending h) @ rest" by (simp add: moved_def)
    from skip_blanks_blanks [OF bs this, of "Some LF" rest] obtain s10 where
      "skip_blanks s9 = Inr (Some LF, s10)" "moved s9 rest s10"
      by (auto simp: peek_eol)
    with 9 b show ?thesis by (auto simp: seq_def intro: moved_trans)
  qed
  then obtain s' where 9: "seq (clauses_digits (digit_val mc) s8) (\<lambda>(specified_clauses, ch) s.
     seq (if ch = Some SPACE \<or> ch = Some TAB then skip_blanks s else Inr (ch, s)) (\<lambda>ch s.
     if ch \<noteq> Some LF then
       parse_error (ExpectedNewLineAfterHeader (variables s) specified_clauses) s
     else Inr (specified_clauses, s))) = Inr (nclauses h, s')" "moved s8 rest s'"
    by auto
  have "parse_header s = Inr (nclauses h, s')"
    using 6 7 8 9
    by (simp add: parse_header_def seq_def isdigit_Some vd(2) md(2)
          digit_of_code [OF vd(2)] digit_of_code [OF md(2)])
  moreover have "infile s' = rest" "variables s' = int (nvars h)" "solver s' = solver s"
    using 6 7 8 9 by (simp_all add: moved_def)
  ultimately show thesis by (rule that)
qed

subsection \<open>Well-formed clauses\<close>

text \<open>
  What may follow a number: a space, a tab, the end of the line, or a comment, which
  starts with \<^verbatim>\<open>c\<close> and runs to the end of its line. The clauses are a list of such
  separators and of numbers, each number with the separator after it.
\<close>

datatype sep = Space | Tab | Eol eol | Comment "char list" eol

fun render_sep :: "sep \<Rightarrow> char list" where
  "render_sep Space = [SPACE]"
| "render_sep Tab = [TAB]"
| "render_sep (Eol e) = render_eol e"
| "render_sep (Comment t e) = CHR ''c'' # t @ render_eol e"

fun wf_sep :: "sep \<Rightarrow> bool" where
  "wf_sep (Comment t e) = plain t"
| "wf_sep x = True"

datatype item = Sep sep | Lit int sep

definition render_lit :: "int \<Rightarrow> char list" where
  "render_lit n = (if n < 0 then CHR ''-'' # dec (nat (- n)) else dec (nat n))"

fun render_item :: "item \<Rightarrow> char list" where
  "render_item (Sep x) = render_sep x"
| "render_item (Lit n x) = render_lit n @ render_sep x"

definition render_items :: "item list \<Rightarrow> char list" where
  "render_items items = concat (map render_item items)"

fun wf_item :: "item \<Rightarrow> bool" where
  "wf_item (Sep x) = wf_sep x"
| "wf_item (Lit n x) = wf_sep x"

text \<open>The numbers of a list of items, in order, and how many of a list of numbers are zero.\<close>

fun lits :: "item list \<Rightarrow> int list" where
  "lits [] = []"
| "lits (Sep x # items) = lits items"
| "lits (Lit n x # items) = n # lits items"

definition zeros :: "int list \<Rightarrow> nat" where
  "zeros ls = length (filter (\<lambda>l. l = 0) ls)"

text \<open>
  \<open>fits m p ls\<close>: with \<open>p\<close> clauses closed so far and \<open>m\<close> clauses specified, each number
  of \<open>ls\<close> starts while fewer than \<open>m\<close> clauses are closed.
\<close>

fun fits :: "nat \<Rightarrow> nat \<Rightarrow> int list \<Rightarrow> bool" where
  "fits m p [] = True"
| "fits m p (l # ls) = (p < m \<and> fits m (if l = 0 then p + 1 else p) ls)"

text \<open>The first character of a separator as \<^verbatim>\<open>next\<close> returns it, and what follows it.\<close>

fun sep_head :: "sep \<Rightarrow> char" where
  "sep_head Space = SPACE"
| "sep_head Tab = TAB"
| "sep_head (Eol e) = LF"
| "sep_head (Comment t e) = CHR ''c''"

fun sep_tail :: "sep \<Rightarrow> char list" where
  "sep_tail (Comment t e) = t @ render_eol e"
| "sep_tail x = []"

lemma peek_sep: "peek (render_sep x @ rest) = Some (Some (sep_head x), sep_tail x @ rest)"
  by (cases x) (simp_all add: peek_Cons peek_eol)

lemma sep_head_cases:
  "sep_head x = SPACE \<or> sep_head x = TAB \<or> sep_head x = LF \<or> sep_head x = CHR ''c''"
  by (cases x) simp_all

lemma not_isdigit_sep_head: "\<not> isdigit (Some (sep_head x))"
  using sep_head_cases [of x] by (auto simp: not_isdigit_blank)

lemma zeros_simps:
  "zeros [] = 0" "zeros (l # ls) = (if l = 0 then 1 else 0) + zeros ls"
  "zeros (ls @ ms) = zeros ls + zeros ms"
  by (simp_all add: zeros_def)

subsection \<open>One number\<close>

text \<open>
  \<open>literal\<close> on the number \<open>n\<close>, whose first character \<open>c0\<close> has been read, when fewer
  clauses are closed than specified and \<open>n\<close> fits an \<^verbatim>\<open>int\<close>: the digits are read up to
  the character \<open>ch\<close> after them, and then the checks of lines 346 to 352 decide.
\<close>

lemma literal_decoded:
  assumes "render_lit n = c0 # cs0" and "\<bar>n\<bar> \<le> 2147483647"
    and "infile s = cs0 @ rest" and "peek rest = Some (ch, rest')" and "\<not> isdigit ch"
    and "p < m" and "m \<le> 18446744073709551615"
  obtains s' where "moved s rest' s'"
    and "literal m p (Some c0) s =
      (if ch \<noteq> Some SPACE \<and> ch \<noteq> Some TAB \<and> ch \<noteq> Some LF \<and> ch \<noteq> Some CHR ''c'' then
         Inl (FormatError (UnexpectedCharacterAfter n), s')
       else if \<bar>n\<bar> > variables s then
         Inl (FormatError (LiteralExceedsMaximumVariable n (variables s)), s')
       else Inr ((if n = 0 then p + 1 else p, n, ch), s'\<lparr>solver := solver s @ [n]\<rparr>))"
proof -
  obtain c cs where d: "dec (nat \<bar>n\<bar>) = c # cs" "is_digit c" "list_all is_digit cs"
    "decval (digit_val c) cs = nat \<bar>n\<bar>" "cs = [] \<or> 0 < digit_val c"
    by (rule dec_split [of "nat \<bar>n\<bar>"])
  have le: "decval (digit_val c) cs \<le> 2147483647" using assms(2) d(4) by simp
  have abs_n: "int (decval (digit_val c) cs) = \<bar>n\<bar>" using d(4) by simp
  have range: "int32 \<bar>n\<bar> = \<bar>n\<bar>" "int32 n = n" "int32 (- \<bar>n\<bar>) = - \<bar>n\<bar>" "\<bar>n\<bar> \<noteq> INT_MIN"
    "n \<noteq> INT_MIN"
    using assms(2) by (simp_all add: int32_id INT_MIN_def)
  have p: "size_t (p + 1) = p + 1" using assms(6,7) by (simp add: size_t_id)
  show thesis
  proof (cases "n < 0")
    case False
    then have "render_lit n = c # cs" "\<bar>n\<bar> = n" using d(1) by (simp_all add: render_lit_def)
    with assms(1,3) have c0: "c0 = c" and inp: "infile s = cs @ rest" by simp_all
    from lit_digits_value [OF d(3,5) le inp assms(4,5)] obtain s' where
      1: "lit_digits (int (digit_val c)) s = Inr ((\<bar>n\<bar>, ch), s')" "moved s rest' s'"
      using abs_n by auto
    have "literal m p (Some c0) s =
      (if ch \<noteq> Some SPACE \<and> ch \<noteq> Some TAB \<and> ch \<noteq> Some LF \<and> ch \<noteq> Some CHR ''c'' then
         Inl (FormatError (UnexpectedCharacterAfter n), s')
       else if \<bar>n\<bar> > variables s then
         Inl (FormatError (LiteralExceedsMaximumVariable n (variables s)), s')
       else Inr ((if n = 0 then p + 1 else p, n, ch), s'\<lparr>solver := solver s @ [n]\<rparr>))"
      using 1 assms(6) range p \<open>\<bar>n\<bar> = n\<close> is_digit_not_blank [OF d(2)]
      by (simp add: literal_def literal_sign_def literal_number_def seq_def c0 isdigit_Some d(2) digit_of_code [OF d(2)]
            parse_error_def Let_def moved_def)
    with 1(2) show ?thesis by (rule that)
  next
    case True
    then have "render_lit n = CHR ''-'' # c # cs" "\<bar>n\<bar> = - n"
      using d(1) by (simp_all add: render_lit_def)
    with assms(1,3) have c0: "c0 = CHR ''-''" and inp: "infile s = c # cs @ rest" by simp_all
    from inp is_digit_not_CR [OF d(2)] obtain s1 where
      1: "next_ch s = Inr (Some c, s1)" "moved s (cs @ rest) s1"
      by (auto elim: next_ch_Cons)
    then have "infile s1 = cs @ rest" by (simp add: moved_def)
    from lit_digits_value [OF d(3,5) le this assms(4,5)] obtain s' where
      2: "lit_digits (int (digit_val c)) s1 = Inr ((\<bar>n\<bar>, ch), s')" "moved s1 rest' s'"
      using abs_n by auto
    have "literal m p (Some c0) s =
      (if ch \<noteq> Some SPACE \<and> ch \<noteq> Some TAB \<and> ch \<noteq> Some LF \<and> ch \<noteq> Some CHR ''c'' then
         Inl (FormatError (UnexpectedCharacterAfter n), s')
       else if \<bar>n\<bar> > variables s then
         Inl (FormatError (LiteralExceedsMaximumVariable n (variables s)), s')
       else Inr ((if n = 0 then p + 1 else p, n, ch), s'\<lparr>solver := solver s @ [n]\<rparr>))"
      using 1 2 assms(6) range p \<open>\<bar>n\<bar> = - n\<close> True
      by (simp add: literal_def literal_sign_def literal_number_def seq_def c0 isdigit_Some d(2) digit_of_code [OF d(2)]
            parse_error_def Let_def moved_def)
    moreover have "moved s rest' s'" using 1 2 by (auto intro: moved_trans)
    ultimately show ?thesis by (intro that)
  qed
qed

lemma render_lit_split:
  obtains c0 cs0 where "render_lit n = c0 # cs0" and "c0 = CHR ''-'' \<or> is_digit c0"
proof -
  obtain c cs where "dec (nat \<bar>n\<bar>) = c # cs" "is_digit c"
    by (rule dec_split [of "nat \<bar>n\<bar>"])
  then show thesis
    by (cases "n < 0") (auto simp: render_lit_def intro: that)
qed

subsection \<open>The loop on well-formed clauses\<close>

lemma body_blank:
  assumes "next_ch s = Inr (Some c, s1)" and "c = SPACE \<or> c = TAB \<or> c = LF"
  shows "body m (p, l) s = body m (p, l) s1"
  using assms by (subst body.simps) auto

lemma body_Sep:
  assumes "wf_sep x" and "infile s = render_sep x @ rest"
  obtains s' where "body m (p, l) s = body m (p, l) s'" and "moved s rest s'"
proof (cases x)
  case Space
  with assms obtain s1 where "next_ch s = Inr (Some SPACE, s1)" "moved s rest s1"
    by (auto elim: next_ch_Cons)
  then show ?thesis by (intro that [of s1]) (simp_all add: body_blank)
next
  case Tab
  with assms obtain s1 where "next_ch s = Inr (Some TAB, s1)" "moved s rest s1"
    by (auto elim: next_ch_Cons)
  then show ?thesis by (intro that [of s1]) (simp_all add: body_blank)
next
  case (Eol e)
  with assms obtain s1 where "next_ch s = Inr (Some LF, s1)" "moved s rest s1"
    by (auto elim: next_ch_eol)
  then show ?thesis by (intro that [of s1]) (simp_all add: body_blank)
next
  case (Comment t e)
  with assms obtain s1 where
    1: "next_ch s = Inr (Some CHR ''c'', s1)" "moved s (t @ render_eol e @ rest) s1"
    by (auto elim: next_ch_Cons)
  from Comment assms(1) have t: "plain t" by simp
  from 1 have "infile s1 = t @ render_eol e @ rest" by (simp add: moved_def)
  from comment_plain [OF t this] obtain s2 where
    2: "comment s1 = Inr ((), s2)" "moved s1 rest s2" by auto
  have "body m (p, l) s = body m (p, l) s2"
    using 1 2 by (subst body.simps) simp
  moreover have "moved s rest s2" using 1 2 by (auto intro: moved_trans)
  ultimately show ?thesis by (rule that)
qed

lemma body_Lit:
  assumes "wf_sep x" and "\<bar>n\<bar> \<le> variables s" and "variables s \<le> 2147483647"
    and "p < m" and "m \<le> 18446744073709551615"
    and "infile s = render_lit n @ render_sep x @ rest"
  obtains s' where "body m (p, l) s = body m (if n = 0 then p + 1 else p, n) s'"
    and "infile s' = rest" and "variables s' = variables s" and "solver s' = solver s @ [n]"
proof -
  obtain c0 cs0 where r: "render_lit n = c0 # cs0" and c0: "c0 = CHR ''-'' \<or> is_digit c0"
    by (rule render_lit_split)
  have c0': "c0 \<noteq> CR" "c0 \<noteq> SPACE" "c0 \<noteq> TAB" "c0 \<noteq> LF" "c0 \<noteq> CHR ''c''"
    using c0 is_digit_not_blank [of c0] is_digit_not_CR [of c0] by auto
  from assms(6) r c0'(1) obtain s1 where
    1: "next_ch s = Inr (Some c0, s1)" "moved s (cs0 @ render_sep x @ rest) s1"
    by (auto elim: next_ch_Cons)
  then have i1: "infile s1 = cs0 @ render_sep x @ rest" and v1: "variables s1 = variables s"
    and a1: "solver s1 = solver s"
    by (simp_all add: moved_def)
  have n: "\<bar>n\<bar> \<le> 2147483647" using assms(2,3) by simp
  let ?p = "if n = 0 then p + 1 else p"
  obtain s2 where m2: "moved s1 (sep_tail x @ rest) s2"
    and l2: "literal m p (Some c0) s1 =
      (if Some (sep_head x) \<noteq> Some SPACE \<and> Some (sep_head x) \<noteq> Some TAB \<and>
          Some (sep_head x) \<noteq> Some LF \<and> Some (sep_head x) \<noteq> Some CHR ''c'' then
         Inl (FormatError (UnexpectedCharacterAfter n), s2)
       else if \<bar>n\<bar> > variables s1 then
         Inl (FormatError (LiteralExceedsMaximumVariable n (variables s1)), s2)
       else Inr ((if n = 0 then p + 1 else p, n, Some (sep_head x)),
         s2\<lparr>solver := solver s1 @ [n]\<rparr>))"
    by (rule literal_decoded [OF r n i1 peek_sep not_isdigit_sep_head assms(4,5)])
  have sh: "\<not> (Some (sep_head x) \<noteq> Some SPACE \<and> Some (sep_head x) \<noteq> Some TAB \<and>
          Some (sep_head x) \<noteq> Some LF \<and> Some (sep_head x) \<noteq> Some CHR ''c'')"
    by (cases x) simp_all
  have nv: "\<not> \<bar>n\<bar> > variables s1" using assms(2) v1 by simp
  have 2: "moved s1 (sep_tail x @ rest) s2"
      "literal m p (Some c0) s1 =
         Inr ((?p, n, Some (sep_head x)), s2\<lparr>solver := solver s1 @ [n]\<rparr>)"
    using m2 apply assumption
    unfolding l2 using sh nv by (simp only: if_False)
  let ?s2 = "s2\<lparr>solver := solver s1 @ [n]\<rparr>"
  have b: "body m (p, l) s =
      (if sep_head x = CHR ''c'' then
         (case comment ?s2 of Inl f \<Rightarrow> Inl f | Inr (u, s3) \<Rightarrow> body m (?p, n) s3)
       else body m (?p, n) ?s2)"
    using 1 2 c0' by (subst body.simps) simp
  show thesis
  proof (cases x)
    case (Comment t e)
    with assms(1) have t: "plain t" by simp
    have "infile ?s2 = t @ render_eol e @ rest" using 2 Comment by (simp add: moved_def)
    from comment_plain [OF t this] obtain s3 where
      3: "comment ?s2 = Inr ((), s3)" "moved ?s2 rest s3" by auto
    have "body m (p, l) s = body m (?p, n) s3" using b 3 Comment by simp
    moreover have "infile s3 = rest" "variables s3 = variables s" "solver s3 = solver s @ [n]"
      using 1 2 3 by (simp_all add: moved_def)
    ultimately show ?thesis by (rule that)
  next
    case Space
    then have "body m (p, l) s = body m (?p, n) ?s2" using b by simp
    moreover have "infile ?s2 = rest" "variables ?s2 = variables s" "solver ?s2 = solver s @ [n]"
      using 1 2 Space by (simp_all add: moved_def)
    ultimately show ?thesis by (rule that)
  next
    case Tab
    then have "body m (p, l) s = body m (?p, n) ?s2" using b by simp
    moreover have "infile ?s2 = rest" "variables ?s2 = variables s" "solver ?s2 = solver s @ [n]"
      using 1 2 Tab by (simp_all add: moved_def)
    ultimately show ?thesis by (rule that)
  next
    case (Eol e)
    then have "body m (p, l) s = body m (?p, n) ?s2" using b by simp
    moreover have "infile ?s2 = rest" "variables ?s2 = variables s" "solver ?s2 = solver s @ [n]"
      using 1 2 Eol by (simp_all add: moved_def)
    ultimately show ?thesis by (rule that)
  qed
qed

text \<open>
  A list of well-formed items, with numbers no larger than \<^verbatim>\<open>variables\<close>, each started
  while fewer clauses are closed than specified: the loop hands the numbers to the solver
  and goes on behind the items, with the clauses counted and the last number in \<^verbatim>\<open>lit\<close>.
\<close>

lemma body_items:
  assumes "list_all wf_item items" and "list_all (\<lambda>n. \<bar>n\<bar> \<le> variables s) (lits items)"
    and "variables s \<le> 2147483647" and "fits m p (lits items)"
    and "m \<le> 18446744073709551615" and "infile s = render_items items @ rest"
  obtains s' where
    "body m (p, l) s = body m (p + zeros (lits items), last (l # lits items)) s'"
    and "infile s' = rest" and "variables s' = variables s"
    and "solver s' = solver s @ lits items"
proof -
  have "\<exists>s'. body m (p, l) s = body m (p + zeros (lits items), last (l # lits items)) s'
      \<and> infile s' = rest \<and> variables s' = variables s \<and> solver s' = solver s @ lits items"
    using assms(1,2,3,4,6)
  proof (induction items arbitrary: p l s)
    case Nil
    then show ?case by (auto simp: render_items_def zeros_simps)
  next
    case (Cons it items)
    show ?case
    proof (cases it)
      case (Sep x)
      with Cons.prems have "wf_sep x" "infile s = render_sep x @ render_items items @ rest"
        by (simp_all add: render_items_def)
      from body_Sep [OF this, of m p l] obtain s1 where
        1: "body m (p, l) s = body m (p, l) s1" "moved s (render_items items @ rest) s1"
        by auto
      have "\<exists>s'. body m (p, l) s1 = body m (p + zeros (lits items), last (l # lits items)) s'
          \<and> infile s' = rest \<and> variables s' = variables s1
          \<and> solver s' = solver s1 @ lits items"
        using Cons.prems 1 Sep by (intro Cons.IH) (auto simp: moved_def)
      with 1 Sep show ?thesis by (auto simp: moved_def)
    next
      case (Lit n x)
      with Cons.prems have "wf_sep x" "\<bar>n\<bar> \<le> variables s" "p < m"
        "infile s = render_lit n @ render_sep x @ render_items items @ rest"
        by (simp_all add: render_items_def)
      from body_Lit [OF this(1,2) Cons.prems(3) this(3) assms(5) this(4), of l] obtain s1 where
        1: "body m (p, l) s = body m (if n = 0 then p + 1 else p, n) s1"
          "infile s1 = render_items items @ rest" "variables s1 = variables s"
          "solver s1 = solver s @ [n]"
        by auto
      let ?p = "if n = 0 then p + 1 else p"
      have "\<exists>s'. body m (?p, n) s1 = body m (?p + zeros (lits items), last (n # lits items)) s'
          \<and> infile s' = rest \<and> variables s' = variables s1
          \<and> solver s' = solver s1 @ lits items"
        using Cons.prems 1 Lit by (intro Cons.IH) auto
      with 1 Lit show ?thesis by (auto simp: zeros_simps)
    qed
  qed
  with that show thesis by auto
qed

subsection \<open>Whole files\<close>

text \<open>
  The items behind a header are well formed when their comments are, and no number is
  larger than the number of variables of the header.
\<close>

definition wf_items :: "header \<Rightarrow> item list \<Rightarrow> bool" where
  "wf_items h items \<longleftrightarrow>
     list_all wf_item items \<and> list_all (\<lambda>n. \<bar>n\<bar> \<le> int (nvars h)) (lits items)"

text \<open>
  A well-formed file: a well-formed header and well-formed items, with as many zeros as
  the header specifies clauses, the last number a zero.
\<close>

definition wf_dimacs :: "header \<Rightarrow> item list \<Rightarrow> bool" where
  "wf_dimacs h items \<longleftrightarrow>
     wf_header h \<and> wf_items h items \<and> zeros (lits items) = nclauses h \<and>
     (lits items = [] \<or> last (lits items) = 0)"

definition render_dimacs :: "header \<Rightarrow> item list \<Rightarrow> char list" where
  "render_dimacs h items = render_header h @ render_items items"

lemma zeros_last: "ls \<noteq> [] \<Longrightarrow> last ls = 0 \<Longrightarrow> 0 < zeros ls"
  by (induction ls) (auto simp: zeros_simps split: if_splits)

lemma fits_less: "p + zeros ls < m \<Longrightarrow> fits m p ls"
  by (induction ls arbitrary: p) (auto simp: zeros_simps)

lemma fits_closed: "p + zeros ls \<le> m \<Longrightarrow> ls = [] \<or> last ls = 0 \<Longrightarrow> fits m p ls"
proof (induction ls arbitrary: p)
  case Nil
  show ?case by simp
next
  case (Cons l ls)
  show ?case
  proof (cases "ls = []")
    case True
    with Cons.prems show ?thesis by (simp add: zeros_simps)
  next
    case False
    with Cons.prems have "last ls = 0" by simp
    with False have "0 < zeros ls" by (rule zeros_last)
    with Cons.prems \<open>last ls = 0\<close> show ?thesis
      by (auto simp: zeros_simps intro!: Cons.IH)
  qed
qed

lemma fits_append:
  "fits m p (ls @ [n]) \<longleftrightarrow> fits m p ls \<and> p + zeros ls < m"
  by (induction ls arbitrary: p) (auto simp: zeros_simps)

lemma body_EOF:
  assumes "infile s = []"
  obtains s' where "body m (p, l) s = Inr ((p, l), s')" and "moved s [] s'"
proof -
  from assms have "peek (infile s) = Some (EOF, [])" by (simp add: peek_Nil)
  from next_ch_peek [OF this] obtain s' where "next_ch s = Inr (EOF, s')" "moved s [] s'"
    by auto
  then show thesis by (intro that [of s']) (subst body.simps, simp_all)
qed

text \<open>
  A well-formed header and well-formed items, each number started while fewer clauses
  are closed than specified, and then anything: \<^verbatim>\<open>parse\<close> has read the header, handed the
  numbers to the solver, and goes on with the loop behind the items.
\<close>

lemma parse_prefix:
  assumes "wf_header h" and "wf_items h items" and "fits (nclauses h) 0 (lits items)"
  obtains s' where
    "parse (initial (render_header h @ render_items items @ rest)) =
       seq (body (nclauses h) (zeros (lits items), last (0 # lits items)) s')
         (check_end (nclauses h))"
    and "infile s' = rest" and "variables s' = int (nvars h)" and "solver s' = lits items"
proof -
  let ?s = "initial (render_header h @ render_items items @ rest)"
  have "infile ?s = render_header h @ render_items items @ rest" "solver ?s = []"
    by (simp_all add: initial_def)
  from parse_header_wf [OF assms(1) this(1)] this(2) obtain s1 where
    1: "parse_header ?s = Inr (nclauses h, s1)" "infile s1 = render_items items @ rest"
      "variables s1 = int (nvars h)" "solver s1 = []"
    by auto
  from assms(1,2) have
    "list_all wf_item items" "list_all (\<lambda>n. \<bar>n\<bar> \<le> variables s1) (lits items)"
    "variables s1 \<le> 2147483647" "nclauses h \<le> 18446744073709551615"
    by (simp_all add: wf_items_def wf_header_def 1)
  from body_items [OF this(1,2,3) assms(3) this(4) 1(2), of 0] obtain s2 where
    2: "body (nclauses h) (0, 0) s1 =
        body (nclauses h) (0 + zeros (lits items), last (0 # lits items)) s2"
      "infile s2 = rest" "variables s2 = variables s1" "solver s2 = solver s1 @ lits items"
    by auto
  have "parse ?s =
      seq (body (nclauses h) (zeros (lits items), last (0 # lits items)) s2)
        (check_end (nclauses h))"
    using 1 2 by (simp add: parse_def seq_def)
  moreover have "infile s2 = rest" "variables s2 = int (nvars h)" "solver s2 = lits items"
    using 1 2 by simp_all
  ultimately show thesis by (rule that)
qed

lemma lits_append: "lits (xs @ ys) = lits xs @ lits ys"
  by (induction xs rule: lits.induct) simp_all

text \<open>
  C1. For the files that are well formed in the sense above: a header \<^verbatim>\<open>p cnf V M\<close> with one
  space directly after \<open>V\<close>, then numbers of absolute value at most \<open>V\<close>, each of them
  directly followed by a space, a tab, the end of a line or a comment, with \<open>M\<close> zeros among
  them and a zero the last. On such a file \<^verbatim>\<open>parse\<close> returns without an error; the solver
  has been handed exactly the numbers of the file, in order, the zeros that close the
  clauses among them, as many of them as the header specifies clauses; \<^verbatim>\<open>variables\<close> is
  the number of the header and the input is read to its end.
\<close>

theorem parse_well_formed:
  assumes "wf_dimacs h items"
  shows "\<exists>s'. parse (initial (render_dimacs h items)) = Inr ((), s')
    \<and> solver s' = lits items \<and> zeros (solver s') = nclauses h
    \<and> variables s' = int (nvars h) \<and> infile s' = []"
proof -
  from assms have h: "wf_header h" and items: "wf_items h items"
    and z: "zeros (lits items) = nclauses h" and l: "lits items = [] \<or> last (lits items) = 0"
    by (simp_all add: wf_dimacs_def)
  from z l have "fits (nclauses h) 0 (lits items)" by (intro fits_closed) simp_all
  from parse_prefix [OF h items this, of "[]"] obtain s1 where
    1: "parse (initial (render_dimacs h items)) =
        seq (body (nclauses h) (zeros (lits items), last (0 # lits items)) s1)
          (check_end (nclauses h))"
      "infile s1 = []" "variables s1 = int (nvars h)" "solver s1 = lits items"
    by (auto simp: render_dimacs_def)
  from body_EOF [OF 1(2)] obtain s2 where
    2: "body (nclauses h) (zeros (lits items), last (0 # lits items)) s1 =
        Inr ((zeros (lits items), last (0 # lits items)), s2)" "moved s1 [] s2"
    by blast
  have "last (0 # lits items) = 0" using l by auto
  with 1(1) 2(1) z have "parse (initial (render_dimacs h items)) = Inr ((), s2)"
    by (simp add: seq_def check_end_def)
  moreover have "solver s2 = lits items" "variables s2 = int (nvars h)" "infile s2 = []"
    using 1 2 by (simp_all add: moved_def)
  ultimately show ?thesis using z by auto
qed

text \<open>Evaluating the parser on a given input.\<close>

lemmas parse_eval =
  parse_def check_end_def initial_def parse_header_def header_start_def seq_def
  header_comments.simps header_comment.simps skip_blanks.simps variables_digits.simps
  clauses_digits.simps expect_def next_ch_def getc_def isdigit_def code_def body.simps
  literal_def literal_sign_def literal_number_def lit_digits.simps comment.simps parse_error_def assertion_failed_def
  uint64_def long64_def int32_def size_t_def INT_MAX_def INT_MIN_def MAX_SIZE_T_def Let_def

lemma digit_char_eval:
  "digit_char 0 = CHR ''0''" "digit_char 1 = CHR ''1''" "digit_char 2 = CHR ''2''"
  "digit_char 3 = CHR ''3''" "digit_char 4 = CHR ''4''" "digit_char 5 = CHR ''5''"
  "digit_char 6 = CHR ''6''" "digit_char 7 = CHR ''7''" "digit_char 8 = CHR ''8''"
  "digit_char 9 = CHR ''9''" "digit_char (Suc 0) = CHR ''1''"
  by code_simp+

lemmas render_eval =
  render_dimacs_def render_header_def render_items_def render_lit_def dec.simps
  digit_char_eval

lemmas wf_eval =
  wf_dimacs_def wf_header_def wf_items_def blanks_def plain_def zeros_def

text \<open>The example of the specification: \<^verbatim>\<open>p cnf 3 2\<close>, \<^verbatim>\<open>1 -2 0\<close>, \<^verbatim>\<open>-1 2 3 0\<close>.\<close>

theorem parse_well_formed_witness:
  "wf_dimacs
     \<lparr>comments = [], pad1 = [], nvars = 3, pad2 = [], nclauses = 2, pad3 = [], ending = Unix\<rparr>
     [Lit 1 Space, Lit (- 2) Space, Lit 0 (Eol Unix),
      Lit (- 1) Space, Lit 2 Space, Lit 3 Space, Lit 0 (Eol Unix)]
   \<and> (\<exists>s'. parse (initial ''p cnf 3 2\<newline>1 -2 0\<newline>-1 2 3 0\<newline>'') = Inr ((), s')
        \<and> solver s' = [1, - 2, 0, - 1, 2, 3, 0] \<and> zeros (solver s') = 2
        \<and> variables s' = 3 \<and> infile s' = [])"
proof -
  let ?h = "\<lparr>comments = [], pad1 = [], nvars = 3, pad2 = [], nclauses = 2, pad3 = [],
    ending = Unix\<rparr>"
  let ?items = "[Lit 1 Space, Lit (- 2) Space, Lit 0 (Eol Unix),
      Lit (- 1) Space, Lit 2 Space, Lit 3 Space, Lit 0 (Eol Unix)]"
  have wf: "wf_dimacs ?h ?items" by (simp add: wf_eval)
  have r: "render_dimacs ?h ?items = ''p cnf 3 2\<newline>1 -2 0\<newline>-1 2 3 0\<newline>''"
    by (simp add: render_eval)
  from parse_well_formed [OF wf] wf show ?thesis
    unfolding r by simp
qed

text \<open>
  The claim as the specification states it, for every input of its grammar, fails. The
  grammar has the numbers of the clauses separated by white space and the two numbers of
  the header separated by horizontal white space. The parser wants a space, a tab, a new
  line or \<^verbatim>\<open>c\<close> directly after every number, line 346, so it rejects the example of the
  specification when the last line does not end with a new line, the last zero not handed
  to the solver; and it wants a space directly after the number of variables, line 259, so
  it rejects a header with a tab there.
\<close>

theorem parse_number_before_end_of_file_counterexample:
  "parse (initial ''p cnf 3 2\<newline>1 -2 0\<newline>-1 2 3 0'') =
     Inl (FormatError (UnexpectedCharacterAfter 0),
       \<lparr>infile = [], lineno = 3, bytes = 25, variables = 3, solver = [1, - 2, 0, - 1, 2, 3]\<rparr>)
   \<and> parse (initial (''p cnf 3'' @ [TAB] @ ''2\<newline>1 -2 0\<newline>-1 2 3 0\<newline>'')) =
     Inl (FormatError (ExpectedSpaceAfterVariables 3),
       \<lparr>infile = ''2\<newline>1 -2 0\<newline>-1 2 3 0\<newline>'', lineno = 1, bytes = 8, variables = 3,
        solver = []\<rparr>)"
  by (simp add: parse_eval)

subsection \<open>Every byte is read once\<close>

text \<open>
  \<^verbatim>\<open>next\<close> takes bytes from the front of the input and counts each of them in \<^verbatim>\<open>bytes\<close>,
  a 64-bit counter. \<open>counted s s'\<close>: from \<open>s\<close> to \<open>s'\<close> the counter has gone up by the number
  of bytes taken. \<open>counts s r\<close>: that holds of the step with result \<open>r\<close>, started in \<open>s\<close>, when
  it returns.
\<close>

definition counted :: "pstate \<Rightarrow> pstate \<Rightarrow> bool" where
  "counted s s' \<longleftrightarrow>
     uint64 (bytes s' + length (infile s')) = uint64 (bytes s + length (infile s)) \<and>
     (bytes s' = bytes s \<or> bytes s' < 18446744073709551616)"

definition counts :: "pstate \<Rightarrow> 'a result \<Rightarrow> bool" where
  "counts s r = (case r of Inl f \<Rightarrow> True | Inr (x, s') \<Rightarrow> counted s s')"

lemma counted_refl [simp]: "counted s s"
  by (simp add: counted_def)

lemma counted_trans: "counted s s1 \<Longrightarrow> counted s1 s2 \<Longrightarrow> counted s s2"
  by (auto simp: counted_def)

lemma counted_update [simp]:
  "counted s (s'\<lparr>variables := v\<rparr>) = counted s s'"
  "counted s (s'\<lparr>solver := l\<rparr>) = counted s s'"
  "counted (s\<lparr>variables := v\<rparr>) s' = counted s s'"
  "counted (s\<lparr>solver := l\<rparr>) s' = counted s s'"
  by (simp_all add: counted_def)

lemma counts_Inr [simp]: "counts s (Inr (x, s')) = counted s s'"
  by (simp add: counts_def)

lemma counts_Inl [simp]: "counts s (Inl f)"
  by (simp add: counts_def)

lemma counts_parse_error [simp]: "counts s (parse_error e s')"
  by (simp add: parse_error_def)

lemma counts_assertion_failed [simp]: "counts s (assertion_failed s')"
  by (simp add: assertion_failed_def)

lemma counts_from: "counted s s1 \<Longrightarrow> counts s1 r \<Longrightarrow> counts s r"
  by (auto simp: counts_def split: sum.splits intro: counted_trans)

lemma counts_seq:
  assumes "counts s m" and "\<And>x s'. m = Inr (x, s') \<Longrightarrow> counts s' (k x s')"
  shows "counts s (seq m k)"
proof (cases m)
  case (Inl a)
  then show ?thesis by (simp add: seq_def)
next
  case (Inr b)
  then obtain x s' where m: "m = Inr (x, s')" by (cases b) auto
  have 1: "counts s' (k x s')" using m by (rule assms(2))
  have 2: "counted s s'" using assms(1) unfolding m by simp
  have "counts s (k x s')" using 2 1 by (rule counts_from)
  moreover have "seq m k = k x s'" unfolding m by (simp add: seq_def)
  ultimately show ?thesis by simp
qed

lemma uint64_uint64:
  "uint64 (uint64 a + n) = uint64 (a + n)" "uint64 (Suc (uint64 a)) = uint64 (Suc a)"
  by (simp_all add: uint64_def mod_add_left_eq mod_Suc_eq)

lemma uint64_less: "uint64 n < 18446744073709551616"
  by (simp add: uint64_def)

lemma next_ch_counted: "next_ch s = Inr (ch, s1) \<Longrightarrow> counted s s1"
  by (auto simp: next_ch_def getc_def parse_error_def Let_def counted_def uint64_uint64 uint64_less
           split: list.splits if_splits)

lemma counts_next_ch: "counts s (next_ch s)"
  by (cases "next_ch s") (auto dest: next_ch_counted)

lemma counts_header_comment: "counts s (header_comment s)"
proof (induction s rule: header_comment.induct)
  case (1 s)
  show ?case
  proof (cases "next_ch s")
    case (Inl a)
    then show ?thesis by (subst header_comment.simps) simp
  next
    case (Inr b)
    obtain ch s1 where b: "b = (ch, s1)" by (cases b)
    have s1: "counted s s1" using Inr b by (simp add: next_ch_counted)
    show ?thesis
    proof (cases "ch \<noteq> Some LF \<and> ch \<noteq> EOF")
      case True
      with "1.IH" [OF Inr b [symmetric]] have "counts s1 (header_comment s1)" by simp
      with s1 have "counts s (header_comment s1)" by (rule counts_from)
      moreover have "header_comment s = header_comment s1"
        using True Inr b by (subst header_comment.simps) auto
      ultimately show ?thesis by simp
    next
      case False
      with Inr b s1 show ?thesis
        by (subst header_comment.simps) auto
    qed
  qed
qed

lemma counts_comment: "counts s (comment s)"
proof (induction s rule: comment.induct)
  case (1 s)
  show ?case
  proof (cases "next_ch s")
    case (Inl a)
    then show ?thesis by (subst comment.simps) simp
  next
    case (Inr b)
    obtain ch s1 where b: "b = (ch, s1)" by (cases b)
    have s1: "counted s s1" using Inr b by (simp add: next_ch_counted)
    show ?thesis
    proof (cases "ch \<noteq> Some LF \<and> ch \<noteq> EOF")
      case True
      with "1.IH" [OF Inr b [symmetric]] have "counts s1 (comment s1)" by simp
      with s1 have "counts s (comment s1)" by (rule counts_from)
      moreover have "comment s = comment s1"
        using True Inr b by (subst comment.simps) auto
      ultimately show ?thesis by simp
    next
      case False
      with Inr b s1 show ?thesis
        by (subst comment.simps) auto
    qed
  qed
qed

lemma counts_lit_digits: "counts s (lit_digits lit s)"
proof (induction lit s rule: lit_digits.induct)
  case (1 lit s)
  show ?case
  proof (cases "next_ch s")
    case (Inl a)
    then show ?thesis by (subst lit_digits.simps) simp
  next
    case (Inr b)
    obtain ch s1 where b: "b = (ch, s1)" by (cases b)
    have s1: "counted s s1" using Inr b by (simp add: next_ch_counted)
    define digit where "digit = int32 (code ch - code (Some CHR ''0''))"
    show ?thesis
    proof (cases "isdigit ch \<and> lit \<noteq> 0 \<and> \<not> INT_MAX div 10 < lit
        \<and> \<not> int32 (INT_MAX - digit) < int32 (lit * 10)")
      case True
      have "counts s1 (lit_digits (int32 (int32 (lit * 10) + digit)) s1)"
        using "1.IH" [OF Inr b [symmetric] _ _ _ refl refl] True
        by (simp add: digit_def)
      with s1 have "counts s (lit_digits (int32 (int32 (lit * 10) + digit)) s1)"
        by (rule counts_from)
      moreover have "lit_digits lit s = lit_digits (int32 (int32 (lit * 10) + digit)) s1"
        using True Inr b
        by (subst lit_digits.simps) (simp add: Let_def digit_def)
      ultimately show ?thesis by simp
    next
      case False
      with Inr b s1 show ?thesis
        by (subst lit_digits.simps) (auto simp: Let_def digit_def split: if_splits)
    qed
  qed
qed

lemma counts_header_comments: "counts s (header_comments s)"
proof (induction s rule: header_comments.induct)
  case (1 s)
  show ?case
  proof (cases "next_ch s")
    case (Inl a)
    then show ?thesis by (subst header_comments.simps) simp
  next
    case (Inr b)
    obtain ch s1 where b: "b = (ch, s1)" by (cases b)
    have s1: "counted s s1" using Inr b by (simp add: next_ch_counted)
    show ?thesis
    proof (cases "ch = Some CHR ''c''")
      case False
      with Inr b s1 show ?thesis
        by (subst header_comments.simps) simp
    next
      case True
      show ?thesis
      proof (cases "header_comment s1")
        case (Inl a)
        then have "header_comments s = Inl a"
          using True Inr b by (subst header_comments.simps) simp
        then show ?thesis by simp
      next
        case r: (Inr c)
        obtain u s2 where c: "c = (u, s2)" by (cases c)
        have "counted s1 s2"
          using counts_header_comment [of s1] r c by simp
        with s1 have s2: "counted s s2" by (rule counted_trans)
        have "counts s2 (header_comments s2)"
          using "1.IH" [OF Inr b [symmetric] True r c [symmetric]] .
        with s2 have "counts s (header_comments s2)" by (rule counts_from)
        moreover have "header_comments s = header_comments s2"
          using True Inr b r c by (subst header_comments.simps) simp
        ultimately show ?thesis by simp
      qed
    qed
  qed
qed

lemma counts_skip_blanks: "counts s (skip_blanks s)"
proof (induction s rule: skip_blanks.induct)
  case (1 s)
  show ?case
  proof (cases "next_ch s")
    case (Inl a)
    then show ?thesis by (subst skip_blanks.simps) simp
  next
    case (Inr b)
    obtain ch s1 where b: "b = (ch, s1)" by (cases b)
    have s1: "counted s s1" using Inr b by (simp add: next_ch_counted)
    show ?thesis
    proof (cases "ch = Some SPACE \<or> ch = Some TAB")
      case True
      with "1.IH" [OF Inr b [symmetric]] have "counts s1 (skip_blanks s1)" by simp
      with s1 have "counts s (skip_blanks s1)" by (rule counts_from)
      moreover have "skip_blanks s = skip_blanks s1"
        using True Inr b by (subst skip_blanks.simps) auto
      ultimately show ?thesis by simp
    next
      case False
      with Inr b s1 show ?thesis
        by (subst skip_blanks.simps) auto
    qed
  qed
qed

lemma counts_expect: "counts s (expect c e s)"
  unfolding expect_def
  using counts_next_ch [of s]
  by (auto split: sum.splits)

lemma counts_variables_digits: "counts s (variables_digits s)"
proof (induction s rule: variables_digits.induct)
  case (1 s)
  show ?case
  proof (cases "next_ch s")
    case (Inl a)
    then show ?thesis by (subst variables_digits.simps) simp
  next
    case (Inr b)
    obtain ch s1 where b: "b = (ch, s1)" by (cases b)
    have s1: "counted s s1" using Inr b by (simp add: next_ch_counted)
    define digit where "digit = int32 (code ch - code (Some CHR ''0''))"
    define s2 where "s2 = s1\<lparr>variables := int32 (variables s1 * 10)\<rparr>"
    define s3 where "s3 = s2\<lparr>variables := int32 (variables s2 + digit)\<rparr>"
    have s3: "counted s s3" using s1 by (simp add: s3_def s2_def)
    show ?thesis
    proof (cases "isdigit ch \<and> variables s1 \<noteq> 0 \<and> \<not> INT_MAX div 10 < variables s1
        \<and> \<not> int32 (INT_MAX - digit) < variables s2")
      case True
      have "counts s3 (variables_digits s3)"
        using "1.IH" [OF Inr b [symmetric] _ _ _ refl refl] True
        by (simp add: s3_def s2_def digit_def)
      with s3 have "counts s (variables_digits s3)" by (rule counts_from)
      moreover have "variables_digits s = variables_digits s3"
        using True Inr b
        by (subst variables_digits.simps) (simp add: Let_def s3_def s2_def digit_def)
      ultimately show ?thesis by simp
    next
      case False
      with Inr b s1 show ?thesis
        by (subst variables_digits.simps)
           (auto simp: Let_def s2_def digit_def split: if_splits)
    qed
  qed
qed

lemma counts_clauses_digits: "counts s (clauses_digits a s)"
proof (induction a s rule: clauses_digits.induct)
  case (1 a s)
  show ?case
  proof (cases "next_ch s")
    case (Inl b)
    then show ?thesis by (subst clauses_digits.simps) simp
  next
    case (Inr b)
    obtain ch s1 where b: "b = (ch, s1)" by (cases b)
    have s1: "counted s s1" using Inr b by (simp add: next_ch_counted)
    define digit where "digit = int32 (code ch - code (Some CHR ''0''))"
    define a2 where "a2 = size_t (a * 10)"
    show ?thesis
    proof (cases "isdigit ch \<and> a \<noteq> 0 \<and> \<not> MAX_SIZE_T div 10 < a
        \<and> \<not> size_t (MAX_SIZE_T + 18446744073709551616 - nat digit) < a2")
      case True
      have "counts s1 (clauses_digits (size_t (a2 + nat digit)) s1)"
        using "1.IH" [OF Inr b [symmetric] _ _ _ refl refl] True
        by (simp add: a2_def digit_def)
      with s1 have "counts s (clauses_digits (size_t (a2 + nat digit)) s1)"
        by (rule counts_from)
      moreover have "clauses_digits a s = clauses_digits (size_t (a2 + nat digit)) s1"
        using True Inr b
        by (subst clauses_digits.simps) (simp add: Let_def a2_def digit_def)
      ultimately show ?thesis by simp
    next
      case False
      with Inr b s1 show ?thesis
        by (subst clauses_digits.simps)
           (auto simp: Let_def a2_def digit_def split: if_splits)
    qed
  qed
qed

lemma counts_header_start: "counts s (header_start s)"
  unfolding header_start_def
  by (intro counts_seq counts_header_comments counts_expect counts_skip_blanks)
     (auto intro!: counts_seq counts_expect counts_skip_blanks)

lemma counts_parse_header: "counts s (parse_header s)"
  unfolding parse_header_def
  by (intro counts_seq counts_header_start)
     (auto intro!: counts_seq counts_skip_blanks counts_clauses_digits
        counts_from [OF _ counts_variables_digits])

lemma counts_literal_sign: "counts s (literal_sign ch s)"
  unfolding literal_sign_def
  by (auto intro!: counts_seq counts_next_ch)

lemma counts_literal_number: "counts s (literal_number m p cs s)"
proof -
  obtain c sign where cs: "cs = (c, sign)" by (cases cs)
  show ?thesis
    unfolding cs literal_number_def
    by (auto intro!: counts_seq counts_lit_digits simp: Let_def)
qed

lemma counts_literal: "counts s (literal m p ch s)"
  unfolding literal_def
  by (intro counts_seq counts_literal_sign counts_literal_number)

lemma counts_body: "counts s (body m (p, l) s)"
proof (induction "length (infile s)" arbitrary: s p l rule: less_induct)
  case less
  note IH = less.hyps
  show ?case
  proof (cases "next_ch s")
    case (Inl a)
    then have "body m (p, l) s = Inl a" by (subst body.simps) simp
    then show ?thesis by simp
  next
    case (Inr b)
    obtain ch s1 where b: "b = (ch, s1)" by (cases b)
    have s1: "counted s s1" using Inr b by (simp add: next_ch_counted)
    consider (blank) "ch = Some SPACE \<or> ch = Some TAB \<or> ch = Some LF"
      | (eof) "ch = EOF"
      | (comment) "ch = Some CHR ''c''"
      | (number) c where "ch = Some c" "c \<noteq> SPACE" "c \<noteq> TAB" "c \<noteq> LF" "c \<noteq> CHR ''c''"
      by (cases ch) auto
    then show ?thesis
    proof cases
      case blank
      then obtain c where "ch = Some c" by auto
      with Inr b have "length (infile s1) < length (infile s)" by (auto dest: next_ch_shorter)
      from IH [OF this] have "counts s1 (body m (p, l) s1)" .
      with s1 have "counts s (body m (p, l) s1)" by (rule counts_from)
      moreover have "body m (p, l) s = body m (p, l) s1"
        using Inr b blank by (subst body.simps) auto
      ultimately show ?thesis by simp
    next
      case eof
      then have "body m (p, l) s = Inr ((p, l), s1)"
        using Inr b by (subst body.simps) simp
      with s1 show ?thesis by simp
    next
      case comment
      with Inr b have lt: "length (infile s1) < length (infile s)"
        by (auto dest: next_ch_shorter)
      have bd: "body m (p, l) s =
          (case comment s1 of Inl f \<Rightarrow> Inl f | Inr (u, s2) \<Rightarrow> body m (p, l) s2)"
        using Inr b comment by (subst body.simps) simp
      show ?thesis
      proof (cases "comment s1")
        case (Inl a)
        with bd show ?thesis by simp
      next
        case r: (Inr d)
        obtain u s2 where d: "d = (u, s2)" by (cases d)
        from r d have "length (infile s2) \<le> length (infile s1)"
          by (auto dest: comment_not_longer)
        with lt have "length (infile s2) < length (infile s)" by simp
        from IH [OF this] have "counts s2 (body m (p, l) s2)" .
        moreover have "counted s1 s2" using counts_comment [of s1] r d by simp
        with s1 have "counted s s2" by (rule counted_trans)
        ultimately have "counts s (body m (p, l) s2)" by (rule counts_from [rotated])
        with bd r d show ?thesis by simp
      qed
    next
      case number
      with Inr b have lt: "length (infile s1) < length (infile s)"
        by (auto dest: next_ch_shorter)
      have bd: "body m (p, l) s =
          (case literal m p ch s1 of
             Inl f \<Rightarrow> Inl f
           | Inr ((p', lit', ch'), s2) \<Rightarrow>
               if ch' = Some CHR ''c'' then
                 (case comment s2 of
                    Inl f \<Rightarrow> Inl f
                  | Inr (u, s3) \<Rightarrow> body m (p', lit') s3)
               else body m (p', lit') s2)"
        using Inr b number by (subst body.simps) simp
      show ?thesis
      proof (cases "literal m p ch s1")
        case (Inl a)
        with bd show ?thesis by simp
      next
        case r: (Inr d)
        obtain p' lit' ch' s2 where d: "d = ((p', lit', ch'), s2)" by (cases d) auto
        have "counted s1 s2" using counts_literal [of s1 m p ch] r d by simp
        with s1 have s2: "counted s s2" by (rule counted_trans)
        from r d have "length (infile s2) \<le> length (infile s1)"
          by (auto dest: literal_not_longer)
        with lt have lt2: "length (infile s2) < length (infile s)" by simp
        show ?thesis
        proof (cases "ch' = Some CHR ''c''")
          case False
          from IH [OF lt2] have "counts s2 (body m (p', lit') s2)" .
          with s2 have "counts s (body m (p', lit') s2)" by (rule counts_from)
          with bd r d False show ?thesis by simp
        next
          case True
          show ?thesis
          proof (cases "comment s2")
            case (Inl a)
            with bd r d True show ?thesis by simp
          next
            case r3: (Inr e)
            obtain u s3 where e: "e = (u, s3)" by (cases e)
            from r3 e have "length (infile s3) \<le> length (infile s2)"
              by (auto dest: comment_not_longer)
            with lt2 have "length (infile s3) < length (infile s)" by simp
            from IH [OF this] have "counts s3 (body m (p', lit') s3)" .
            moreover have "counted s2 s3" using counts_comment [of s2] r3 e by simp
            with s2 have "counted s s3" by (rule counted_trans)
            ultimately have "counts s (body m (p', lit') s3)" by (rule counts_from [rotated])
            with bd r d True r3 e show ?thesis by simp
          qed
        qed
      qed
    qed
  qed
qed

lemma counts_check_end: "counts s (check_end m pl s)"
  by (cases pl) (simp add: check_end_def)

lemma counts_parse: "counts s (parse s)"
  unfolding parse_def
  by (intro counts_seq counts_parse_header counts_body counts_check_end)

text \<open>
  When \<^verbatim>\<open>parse\<close> returns, \<^verbatim>\<open>bytes\<close> is the number of bytes that have been taken from the
  input, in 64 bits: every byte that has been read has been read once.
\<close>

lemma parse_bytes:
  assumes "parse (initial cs) = Inr (u, s')"
  shows "uint64 (bytes s' + length (infile s')) = uint64 (length cs)"
    and "bytes s' < 18446744073709551616"
proof -
  from counts_parse [of "initial cs"] assms have "counted (initial cs) s'" by simp
  then show "uint64 (bytes s' + length (infile s')) = uint64 (length cs)"
    and "bytes s' < 18446744073709551616"
    by (auto simp: counted_def initial_def)
qed

subsection \<open>A comment directly after a number\<close>

text \<open>
  C7. A file \<open>cs\<close> with a number \<open>n\<close> directly followed by \<^verbatim>\<open>c\<close> and any text \<open>t\<close> to the end of
  the line, as in \<^verbatim>\<open>1c comment\<close> or \<^verbatim>\<open>1comment\<close>, after a well-formed header and well-formed
  items \<open>pre\<close> and before well-formed items \<open>post\<close>, the clauses as many as the header
  specifies. \<^verbatim>\<open>parse\<close> returns without an error; the solver has been handed the numbers of
  \<open>pre\<close>, then \<open>n\<close>, then the numbers of \<open>post\<close>, so the text \<open>t\<close> and the end of its line
  have been read as a comment, whatever \<open>t\<close> starts with, and reading has gone on with the
  first byte of the next line; the input is read to its end, and \<^verbatim>\<open>bytes\<close> is the length of
  the file, so no byte has been read twice.
\<close>

theorem comment_after_literal:
  assumes "wf_header h" and "wf_items h pre" and "wf_items h post"
    and "\<bar>n\<bar> \<le> int (nvars h)" and "plain t"
    and "zeros (lits pre @ n # lits post) = nclauses h" and "last (n # lits post) = 0"
    and "cs = render_header h @ render_items pre @
           render_lit n @ CHR ''c'' # t @ render_eol e @ render_items post"
  shows "\<exists>s'. parse (initial cs) = Inr ((), s')
    \<and> solver s' = lits pre @ n # lits post \<and> variables s' = int (nvars h) \<and> infile s' = []
    \<and> bytes s' = uint64 (length cs)"
proof -
  let ?items = "pre @ Lit n (Comment t e) # post"
  have l: "lits ?items = lits pre @ n # lits post" by (simp add: lits_append)
  have w: "wf_items h ?items" using assms(2,3,4,5) by (simp add: wf_items_def lits_append)
  have f: "fits (nclauses h) 0 (lits ?items)"
    using assms(6,7) by (intro fits_closed) (simp_all add: l)
  have cs: "cs = render_dimacs h ?items"
    using assms(8) by (simp add: render_dimacs_def render_items_def)
  from parse_prefix [OF assms(1) w f, of "[]"] obtain s1 where
    1: "parse (initial cs) =
        seq (body (nclauses h) (zeros (lits ?items), last (0 # lits ?items)) s1)
          (check_end (nclauses h))"
      "infile s1 = []" "variables s1 = int (nvars h)" "solver s1 = lits ?items"
    by (auto simp: cs render_dimacs_def)
  from body_EOF [OF 1(2)] obtain s' where
    2: "body (nclauses h) (zeros (lits ?items), last (0 # lits ?items)) s1 =
        Inr ((zeros (lits ?items), last (0 # lits ?items)), s')" "moved s1 [] s'"
    by blast
  have "last (0 # lits ?items) = 0" "zeros (lits ?items) = nclauses h"
    using assms(6,7) by (simp_all add: l)
  with 1(1) 2(1) have p: "parse (initial cs) = Inr ((), s')"
    by (simp add: seq_def check_end_def)
  have r: "solver s' = lits ?items" "variables s' = int (nvars h)" "infile s' = []"
    using 1 2 by (simp_all add: moved_def)
  from parse_bytes [OF p] r(3) have "bytes s' = uint64 (length cs)"
    by (simp add: uint64_def)
  with p r show ?thesis by (simp add: l)
qed

text \<open>
  The example of the comment in line 364 of the source, \<^verbatim>\<open>1comment\<close>, in a file with one
  variable and one clause: the text of the comment is \<^verbatim>\<open>omment\<close>, which is neither white
  space nor a number; the 21 bytes of the file are read, each counted once. And the
  example of the specification, \<^verbatim>\<open>1c comment\<close>, in the same file.
\<close>

theorem comment_after_literal_witness:
  "wf_header
     \<lparr>comments = [], pad1 = [], nvars = 1, pad2 = [], nclauses = 1, pad3 = [], ending = Unix\<rparr>
   \<and> wf_items
       \<lparr>comments = [], pad1 = [], nvars = 1, pad2 = [], nclauses = 1, pad3 = [], ending = Unix\<rparr>
       [Lit 0 (Eol Unix)]
   \<and> plain ''omment''
   \<and> (\<exists>s'. parse (initial ''p cnf 1 1\<newline>1comment\<newline>0\<newline>'') = Inr ((), s')
        \<and> solver s' = [1, 0] \<and> variables s' = 1 \<and> infile s' = [] \<and> bytes s' = 21)
   \<and> parse (initial ''p cnf 1 1\<newline>1comment\<newline>0\<newline>'') =
       Inr ((), \<lparr>infile = [], lineno = 4, bytes = 21, variables = 1, solver = [1, 0]\<rparr>)
   \<and> parse (initial ''p cnf 1 1\<newline>1c comment\<newline>0\<newline>'') =
       Inr ((), \<lparr>infile = [], lineno = 4, bytes = 23, variables = 1, solver = [1, 0]\<rparr>)"
proof -
  let ?h = "\<lparr>comments = [], pad1 = [], nvars = 1, pad2 = [], nclauses = 1, pad3 = [],
    ending = Unix\<rparr>"
  have 1: "wf_header ?h" by (simp add: wf_eval)
  have 2: "wf_items ?h []" by (simp add: wf_eval)
  have 3: "wf_items ?h [Lit 0 (Eol Unix)]" by (simp add: wf_eval)
  have 4: "\<bar>1\<bar> \<le> int (nvars ?h)" by simp
  have 5: "plain ''omment''" by (simp add: plain_def)
  have 6: "zeros (lits [] @ 1 # lits [Lit 0 (Eol Unix)]) = nclauses ?h"
    by (simp add: zeros_def)
  have 7: "last (1 # lits [Lit 0 (Eol Unix)]) = 0" by simp
  have 8: "''p cnf 1 1\<newline>1comment\<newline>0\<newline>'' =
      render_header ?h @ render_items [] @ render_lit 1 @ CHR ''c'' # ''omment'' @
      render_eol Unix @ render_items [Lit 0 (Eol Unix)]"
    by (simp add: render_eval)
  have 9: "parse (initial ''p cnf 1 1\<newline>1comment\<newline>0\<newline>'') =
       Inr ((), \<lparr>infile = [], lineno = 4, bytes = 21, variables = 1, solver = [1, 0]\<rparr>)"
    by (simp add: parse_eval)
  have 10: "parse (initial ''p cnf 1 1\<newline>1c comment\<newline>0\<newline>'') =
       Inr ((), \<lparr>infile = [], lineno = 4, bytes = 23, variables = 1, solver = [1, 0]\<rparr>)"
    by (simp add: parse_eval)
  from comment_after_literal [OF 1 2 3 4 5 6 7 8]
  have "\<exists>s'. parse (initial ''p cnf 1 1\<newline>1comment\<newline>0\<newline>'') = Inr ((), s')
        \<and> solver s' = [1, 0] \<and> variables s' = 1 \<and> infile s' = [] \<and> bytes s' = 21"
    by (simp add: uint64_def)
  with 1 3 5 9 10 show ?thesis by (intro conjI)
qed

subsection \<open>A number larger than the number of variables\<close>

lemma body_Lit_exceeds:
  assumes "variables s < \<bar>n\<bar>" and "\<bar>n\<bar> \<le> 2147483647"
    and "p < m" and "m \<le> 18446744073709551615"
    and "infile s = render_lit n @ render_sep x @ rest"
  obtains s' where
    "body m (p, l) s = Inl (FormatError (LiteralExceedsMaximumVariable n (variables s)), s')"
    and "moved s (sep_tail x @ rest) s'"
proof -
  obtain c0 cs0 where r: "render_lit n = c0 # cs0" and c0: "c0 = CHR ''-'' \<or> is_digit c0"
    by (rule render_lit_split)
  have c0': "c0 \<noteq> CR" "c0 \<noteq> SPACE" "c0 \<noteq> TAB" "c0 \<noteq> LF" "c0 \<noteq> CHR ''c''"
    using c0 is_digit_not_blank [of c0] is_digit_not_CR [of c0] by auto
  from assms(5) r c0'(1) obtain s1 where
    1: "next_ch s = Inr (Some c0, s1)" "moved s (cs0 @ render_sep x @ rest) s1"
    by (auto elim: next_ch_Cons)
  then have i1: "infile s1 = cs0 @ render_sep x @ rest" and v1: "variables s1 = variables s"
    by (simp_all add: moved_def)
  obtain s2 where m2: "moved s1 (sep_tail x @ rest) s2"
    and l2: "literal m p (Some c0) s1 =
      (if Some (sep_head x) \<noteq> Some SPACE \<and> Some (sep_head x) \<noteq> Some TAB \<and>
          Some (sep_head x) \<noteq> Some LF \<and> Some (sep_head x) \<noteq> Some CHR ''c'' then
         Inl (FormatError (UnexpectedCharacterAfter n), s2)
       else if \<bar>n\<bar> > variables s1 then
         Inl (FormatError (LiteralExceedsMaximumVariable n (variables s1)), s2)
       else Inr ((if n = 0 then p + 1 else p, n, Some (sep_head x)),
         s2\<lparr>solver := solver s1 @ [n]\<rparr>))"
    by (rule literal_decoded [OF r assms(2) i1 peek_sep not_isdigit_sep_head assms(3,4)])
  have sh: "\<not> (Some (sep_head x) \<noteq> Some SPACE \<and> Some (sep_head x) \<noteq> Some TAB \<and>
          Some (sep_head x) \<noteq> Some LF \<and> Some (sep_head x) \<noteq> Some CHR ''c'')"
    by (cases x) simp_all
  have nv: "\<bar>n\<bar> > variables s1" using assms(1) v1 by simp
  have 2: "literal m p (Some c0) s1 =
      Inl (FormatError (LiteralExceedsMaximumVariable n (variables s)), s2)"
    unfolding l2 using sh nv v1 by (simp only: if_False if_True)
  have "body m (p, l) s =
      Inl (FormatError (LiteralExceedsMaximumVariable n (variables s)), s2)"
    using 1 2 c0' by (subst body.simps) simp
  moreover have "moved s (sep_tail x @ rest) s2" using 1(2) m2 by (rule moved_trans)
  ultimately show thesis by (rule that)
qed

text \<open>
  C5. Behind a well-formed header and well-formed items that close fewer clauses than
  specified, a number whose absolute value is larger than the number of variables of the
  header (and fits an \<^verbatim>\<open>int\<close>), positive or negative, followed by a space, a tab, a line
  end or a comment: \<^verbatim>\<open>parse\<close> fails with the error for a literal that exceeds the maximum
  variable, whatever comes after. The solver has the numbers before it, not the number
  itself.
\<close>

theorem literal_exceeds_variables:
  assumes "wf_header h" and "wf_items h items" and "zeros (lits items) < nclauses h"
    and "int (nvars h) < \<bar>n\<bar>" and "\<bar>n\<bar> \<le> 2147483647"
  shows "\<exists>s'. parse (initial
        (render_header h @ render_items items @ render_lit n @ render_sep x @ rest)) =
      Inl (FormatError (LiteralExceedsMaximumVariable n (int (nvars h))), s')
    \<and> solver s' = lits items"
proof -
  let ?rest = "render_lit n @ render_sep x @ rest"
  have "fits (nclauses h) 0 (lits items)" using assms(3) by (intro fits_less) simp
  from parse_prefix [OF assms(1,2) this, of ?rest] obtain s1 where
    1: "parse (initial (render_header h @ render_items items @ ?rest)) =
        seq (body (nclauses h) (zeros (lits items), last (0 # lits items)) s1)
          (check_end (nclauses h))"
      "infile s1 = ?rest" "variables s1 = int (nvars h)" "solver s1 = lits items"
    by blast
  have "variables s1 < \<bar>n\<bar>" "nclauses h \<le> 18446744073709551615"
    using assms(1,4) 1 by (simp_all add: wf_header_def)
  from body_Lit_exceeds [OF this(1) assms(5,3) this(2) 1(2)] obtain s2 where
    2: "body (nclauses h) (zeros (lits items), last (0 # lits items)) s1 =
        Inl (FormatError (LiteralExceedsMaximumVariable n (variables s1)), s2)"
      "moved s1 (sep_tail x @ rest) s2"
    by blast
  have "parse (initial (render_header h @ render_items items @ ?rest)) =
      Inl (FormatError (LiteralExceedsMaximumVariable n (int (nvars h))), s2)"
    using 1 2 by (simp add: seq_def)
  moreover have "solver s2 = lits items" using 1 2 by (simp add: moved_def)
  ultimately show ?thesis by blast
qed

text \<open>Two variables, and the numbers \<^verbatim>\<open>-3\<close> and \<^verbatim>\<open>3\<close> after the number \<^verbatim>\<open>1\<close>.\<close>

theorem literal_exceeds_variables_witness:
  "wf_header
     \<lparr>comments = [], pad1 = [], nvars = 2, pad2 = [], nclauses = 1, pad3 = [], ending = Unix\<rparr>
   \<and> (\<exists>s'. parse (initial ''p cnf 2 1\<newline>1 -3 0\<newline>'') =
         Inl (FormatError (LiteralExceedsMaximumVariable (- 3) 2), s') \<and> solver s' = [1])
   \<and> (\<exists>s'. parse (initial ''p cnf 2 1\<newline>1 3 0\<newline>'') =
         Inl (FormatError (LiteralExceedsMaximumVariable 3 2), s') \<and> solver s' = [1])"
proof -
  let ?h = "\<lparr>comments = [], pad1 = [], nvars = 2, pad2 = [], nclauses = 1, pad3 = [],
    ending = Unix\<rparr>"
  let ?items = "[Lit 1 Space]"
  have h: "wf_header ?h" by (simp add: wf_eval)
  have items: "wf_items ?h ?items" by (simp add: wf_eval)
  have z: "zeros (lits ?items) < nclauses ?h" by (simp add: zeros_def)
  have r1: "render_header ?h @ render_items ?items @ render_lit (- 3) @ render_sep Space @
      ''0\<newline>'' = ''p cnf 2 1\<newline>1 -3 0\<newline>''"
    by (simp add: render_eval)
  have r2: "render_header ?h @ render_items ?items @ render_lit 3 @ render_sep Space @
      ''0\<newline>'' = ''p cnf 2 1\<newline>1 3 0\<newline>''"
    by (simp add: render_eval)
  from literal_exceeds_variables [OF h items z, of "- 3" Space "''0\<newline>''"]
    literal_exceeds_variables [OF h items z, of 3 Space "''0\<newline>''"] h
  show ?thesis unfolding r1 r2 by simp
qed

subsection \<open>More clauses than specified\<close>

text \<open>
  A number starts with a digit or with \<^verbatim>\<open>-\<close> and a digit. When as many clauses are closed
  as specified, the loop fails as soon as it has read that much of a number.
\<close>

lemma body_excess:
  assumes "is_digit c" and "tok = [c] \<or> tok = [CHR ''-'', c]" and "infile s = tok @ rest"
  obtains s' where "body m (m, l) s = Inl (FormatError MoreClausesThanSpecified, s')"
    and "moved s rest s'"
proof -
  have c: "c \<noteq> CR" "c \<noteq> SPACE" "c \<noteq> TAB" "c \<noteq> LF" "c \<noteq> CHR ''c''" "c \<noteq> CHR ''-''"
    using is_digit_not_blank [OF assms(1)] is_digit_not_CR [OF assms(1)] by auto
  from assms(2) show thesis
  proof
    assume "tok = [c]"
    with assms(3) c obtain s1 where
      1: "next_ch s = Inr (Some c, s1)" "moved s rest s1"
      by (auto elim: next_ch_Cons)
    have "literal m m (Some c) s1 = Inl (FormatError MoreClausesThanSpecified, s1)"
      using c by (simp add: literal_def literal_sign_def literal_number_def seq_def isdigit_Some assms(1) parse_error_def)
    then have "body m (m, l) s = Inl (FormatError MoreClausesThanSpecified, s1)"
      using 1 c by (subst body.simps) simp
    with 1 show ?thesis by (intro that)
  next
    assume "tok = [CHR ''-'', c]"
    with assms(3) obtain s1 where
      1: "next_ch s = Inr (Some CHR ''-'', s1)" "moved s (c # rest) s1"
      by (auto elim: next_ch_Cons)
    then have "infile s1 = c # rest" by (simp add: moved_def)
    with c obtain s2 where
      2: "next_ch s1 = Inr (Some c, s2)" "moved s1 rest s2"
      by (auto elim: next_ch_Cons)
    have "literal m m (Some CHR ''-'') s1 = Inl (FormatError MoreClausesThanSpecified, s2)"
      using 2 by (simp add: literal_def literal_sign_def literal_number_def seq_def isdigit_Some assms(1) parse_error_def)
    then have "body m (m, l) s = Inl (FormatError MoreClausesThanSpecified, s2)"
      using 1 by (subst body.simps) simp
    moreover have "moved s rest s2" using 1(2) 2(2) by (rule moved_trans)
    ultimately show ?thesis by (intro that)
  qed
qed

text \<open>
  C3, as the code has it. Behind a well-formed header and well-formed items that close
  exactly as many clauses as specified, the start of any further number, zero or not: a
  digit, or \<^verbatim>\<open>-\<close> and a digit. \<^verbatim>\<open>parse\<close> fails with the error for more clauses than
  specified when it has read this much and nothing of what follows, so before the end of
  the file and before any zero that would close the clause; the solver has the numbers of
  the specified clauses and no more.
\<close>

theorem more_clauses_than_specified:
  assumes "wf_header h" and "wf_items h items" and "fits (nclauses h) 0 (lits items)"
    and "zeros (lits items) = nclauses h"
    and "is_digit c" and "tok = [c] \<or> tok = [CHR ''-'', c]"
  shows "\<exists>s'. parse (initial (render_header h @ render_items items @ tok @ rest)) =
      Inl (FormatError MoreClausesThanSpecified, s')
    \<and> infile s' = rest \<and> solver s' = lits items"
proof -
  from parse_prefix [OF assms(1,2,3), of "tok @ rest"] obtain s1 where
    1: "parse (initial (render_header h @ render_items items @ tok @ rest)) =
        seq (body (nclauses h) (zeros (lits items), last (0 # lits items)) s1)
          (check_end (nclauses h))"
      "infile s1 = tok @ rest" "variables s1 = int (nvars h)" "solver s1 = lits items"
    by blast
  from body_excess [OF assms(5,6) 1(2)] obtain s2 where
    2: "body (nclauses h) (nclauses h, last (0 # lits items)) s1 =
        Inl (FormatError MoreClausesThanSpecified, s2)" "moved s1 rest s2"
    by blast
  have "parse (initial (render_header h @ render_items items @ tok @ rest)) =
      Inl (FormatError MoreClausesThanSpecified, s2)"
    using 1(1) 2(1) assms(4) by (simp add: seq_def)
  moreover have "infile s2 = rest" "solver s2 = lits items"
    using 1 2 by (simp_all add: moved_def)
  ultimately show ?thesis by blast
qed

text \<open>
  One clause specified, and a second clause \<^verbatim>\<open>1 0\<close> with its numbers on lines of their
  own: the error comes with the \<^verbatim>\<open>1\<close> in line 3, and the zero in line 4 is not read.
\<close>

theorem more_clauses_than_specified_witness:
  "wf_header
     \<lparr>comments = [], pad1 = [], nvars = 1, pad2 = [], nclauses = 1, pad3 = [], ending = Unix\<rparr>
   \<and> is_digit CHR ''1''
   \<and> (\<exists>s'. parse (initial ''p cnf 1 1\<newline>1 0\<newline>1\<newline>0\<newline>'') =
         Inl (FormatError MoreClausesThanSpecified, s')
       \<and> infile s' = ''\<newline>0\<newline>'' \<and> solver s' = [1, 0])"
proof -
  let ?h = "\<lparr>comments = [], pad1 = [], nvars = 1, pad2 = [], nclauses = 1, pad3 = [],
    ending = Unix\<rparr>"
  let ?items = "[Lit 1 Space, Lit 0 (Eol Unix)]"
  have h: "wf_header ?h" by (simp add: wf_eval)
  have items: "wf_items ?h ?items" by (simp add: wf_eval)
  have f: "fits (nclauses ?h) 0 (lits ?items)" by simp
  have z: "zeros (lits ?items) = nclauses ?h" by (simp add: zeros_def)
  have d: "is_digit CHR ''1''" by (simp add: is_digit_def)
  have r: "render_header ?h @ render_items ?items @ [CHR ''1''] @ ''\<newline>0\<newline>'' =
      ''p cnf 1 1\<newline>1 0\<newline>1\<newline>0\<newline>''"
    by (simp add: render_eval)
  from more_clauses_than_specified [OF h items f z d, of "[CHR ''1'']" "''\<newline>0\<newline>''"] h d
  show ?thesis unfolding r by simp
qed

text \<open>
  The claim as the specification states it fails on that input: the error is raised in
  line 3, at the first number of the clause, with the zero that would close the clause
  still unread in line 4.
\<close>

theorem more_clauses_at_terminating_zero_counterexample:
  "parse (initial ''p cnf 1 1\<newline>1 0\<newline>1\<newline>0\<newline>'') =
     Inl (FormatError MoreClausesThanSpecified,
       \<lparr>infile = ''\<newline>0\<newline>'', lineno = 3, bytes = 15, variables = 1, solver = [1, 0]\<rparr>)"
  by (simp add: parse_eval)

subsection \<open>Fewer clauses than specified\<close>

lemma size_t_diff: "p < m \<Longrightarrow> m \<le> 18446744073709551615 \<Longrightarrow>
    size_t (m + 18446744073709551616 - p) = m - p"
proof -
  assume a: "p < m" "m \<le> 18446744073709551615"
  define d where "d = m - p"
  have "m + 18446744073709551616 - p = 18446744073709551616 + d"
    using a by (simp add: d_def)
  moreover have "d < 18446744073709551616" using a by (simp add: d_def)
  ultimately have "size_t (m + 18446744073709551616 - p) = d"
    by (simp add: size_t_def)
  then show ?thesis by (simp add: d_def)
qed

text \<open>
  C4, as the code has it. A well-formed header and well-formed items that close fewer
  clauses than specified, and then the end of the file: \<^verbatim>\<open>parse\<close> fails. When the last
  number is a zero, or there is no number, the error is the one for a single missing
  clause if exactly one is missing, and otherwise the one with the count of the missing
  clauses. When the last number is not a zero, the error is the one for a missing
  terminating zero, whatever the number of missing clauses.
\<close>

theorem clauses_missing:
  assumes "wf_header h" and "wf_items h items" and "zeros (lits items) < nclauses h"
  shows "\<exists>s'. parse (initial (render_dimacs h items)) =
      Inl (FormatError
        (if last (0 # lits items) \<noteq> 0 then TerminatingZeroMissing (last (0 # lits items))
         else if zeros (lits items) + 1 = nclauses h then SingleClauseMissing
         else ClausesMissing (nclauses h - zeros (lits items))), s')
    \<and> infile s' = [] \<and> solver s' = lits items"
proof -
  have "fits (nclauses h) 0 (lits items)" using assms(3) by (intro fits_less) simp
  from parse_prefix [OF assms(1,2) this, of "[]"] obtain s1 where
    1: "parse (initial (render_dimacs h items)) =
        seq (body (nclauses h) (zeros (lits items), last (0 # lits items)) s1)
          (check_end (nclauses h))"
      "infile s1 = []" "variables s1 = int (nvars h)" "solver s1 = lits items"
    by (auto simp: render_dimacs_def)
  from body_EOF [OF 1(2)] obtain s2 where
    2: "body (nclauses h) (zeros (lits items), last (0 # lits items)) s1 =
        Inr ((zeros (lits items), last (0 # lits items)), s2)" "moved s1 [] s2"
    by blast
  have m: "nclauses h \<le> 18446744073709551615" using assms(1) by (simp add: wf_header_def)
  have "size_t (zeros (lits items) + 1) = zeros (lits items) + 1"
    using assms(3) m by (simp add: size_t_id)
  moreover note size_t_diff [OF assms(3) m]
  ultimately have "parse (initial (render_dimacs h items)) =
      Inl (FormatError
        (if last (0 # lits items) \<noteq> 0 then TerminatingZeroMissing (last (0 # lits items))
         else if zeros (lits items) + 1 = nclauses h then SingleClauseMissing
         else ClausesMissing (nclauses h - zeros (lits items))), s2)"
    using 1(1) 2(1) assms(3) by (simp add: seq_def check_end_def parse_error_def)
  moreover have "infile s2 = []" "solver s2 = lits items"
    using 1 2 by (simp_all add: moved_def)
  ultimately show ?thesis by blast
qed

text \<open>One clause \<^verbatim>\<open>1 0\<close> where two and where three are specified.\<close>

theorem clauses_missing_witness:
  "wf_header
     \<lparr>comments = [], pad1 = [], nvars = 3, pad2 = [], nclauses = 2, pad3 = [], ending = Unix\<rparr>
   \<and> (\<exists>s'. parse (initial ''p cnf 3 2\<newline>1 0\<newline>'') = Inl (FormatError SingleClauseMissing, s'))
   \<and> (\<exists>s'. parse (initial ''p cnf 3 3\<newline>1 0\<newline>'') = Inl (FormatError (ClausesMissing 2), s'))"
proof -
  let ?h2 = "\<lparr>comments = [], pad1 = [], nvars = 3, pad2 = [], nclauses = 2, pad3 = [],
    ending = Unix\<rparr>"
  let ?h3 = "\<lparr>comments = [], pad1 = [], nvars = 3, pad2 = [], nclauses = 3, pad3 = [],
    ending = Unix\<rparr>"
  let ?items = "[Lit 1 Space, Lit 0 (Eol Unix)]"
  have h: "wf_header ?h2" "wf_header ?h3" by (simp_all add: wf_eval)
  have items: "wf_items ?h2 ?items" "wf_items ?h3 ?items" by (simp_all add: wf_eval)
  have z: "zeros (lits ?items) < nclauses ?h2" "zeros (lits ?items) < nclauses ?h3"
    by (simp_all add: zeros_def)
  have r: "render_dimacs ?h2 ?items = ''p cnf 3 2\<newline>1 0\<newline>''"
    "render_dimacs ?h3 ?items = ''p cnf 3 3\<newline>1 0\<newline>''"
    by (simp_all add: render_eval)
  from clauses_missing [OF h(1) items(1) z(1)] clauses_missing [OF h(2) items(2) z(2)] h(1)
  show ?thesis unfolding r by (auto simp: zeros_def)
qed

text \<open>
  The claim as the specification states it fails when the last clause is left open: with
  one clause missing and with two clauses missing the file \<^verbatim>\<open>1 2\<close> gives the same error,
  the one for the missing terminating zero.
\<close>

theorem clauses_missing_message_counterexample:
  "parse (initial ''p cnf 2 1\<newline>1 2\<newline>'') =
     Inl (FormatError (TerminatingZeroMissing 2),
       \<lparr>infile = [], lineno = 3, bytes = 14, variables = 2, solver = [1, 2]\<rparr>)
   \<and> parse (initial ''p cnf 2 2\<newline>1 2\<newline>'') =
     Inl (FormatError (TerminatingZeroMissing 2),
       \<lparr>infile = [], lineno = 3, bytes = 14, variables = 2, solver = [1, 2]\<rparr>)"
  by (simp add: parse_eval)

subsection \<open>The number of variables at the boundary of \<^verbatim>\<open>int\<close>\<close>

text \<open>
  Digits that take the value past \<^verbatim>\<open>INT_MAX\<close>: the loop of lines 246 to 258 stops at the
  first digit with which the value no longer fits, with one of the two errors of lines
  252 and 256, and what follows the digits is of no account.
\<close>

lemma variables_digits_overflow:
  assumes "list_all is_digit ds" and "0 < a" and "a \<le> 2147483647"
    and "2147483647 < decval a ds" and "infile s = ds @ rest" and "variables s = int a"
  shows "\<exists>e s'. variables_digits s = Inl (FormatError e, s')
    \<and> (e = MaximumVariableWayTooBig \<or> e = MaximumVariableTooBig)"
  using assms
proof (induction ds arbitrary: a s)
  case Nil
  then show ?case by (simp add: decval_Nil)
next
  case (Cons d ds)
  from Cons.prems have d: "is_digit d" and ds: "list_all is_digit ds" by auto
  from Cons.prems(5) is_digit_not_CR [OF d] obtain s1 where
    1: "next_ch s = Inr (Some d, s1)" "moved s (ds @ rest) s1"
    by (auto elim: next_ch_Cons)
  have v1: "variables s1 = int a" using 1 Cons.prems(6) by (simp add: moved_def)
  let ?a = "a * 10 + digit_val d"
  have dv: "digit_val d \<le> 9" using d by (rule digit_val_le)
  consider (way) "214748364 < a" | (too) "a \<le> 214748364" "2147483647 < ?a"
    | (fits) "?a \<le> 2147483647"
    by linarith
  then show ?case
  proof cases
    case way
    then have "variables_digits s = Inl (FormatError MaximumVariableWayTooBig, s1)"
      using 1 v1 Cons.prems(2)
      by (subst variables_digits.simps)
         (simp add: isdigit_Some d INT_MAX_def parse_error_def)
    then show ?thesis by blast
  next
    case too
    then have "variables_digits s =
        Inl (FormatError MaximumVariableTooBig, s1\<lparr>variables := int a * 10\<rparr>)"
      using 1 v1 Cons.prems(2) dv
      by (subst variables_digits.simps)
         (simp add: isdigit_Some d digit_of_code [OF d] INT_MAX_def int32_id parse_error_def
            Let_def)
    then show ?thesis by blast
  next
    case fits
    note st = int_digit_step [OF fits dv]
    let ?s2 = "s1\<lparr>variables := int ?a\<rparr>"
    have "variables_digits s = variables_digits ?s2"
      using 1 v1 Cons.prems(2) st
      by (subst variables_digits.simps)
         (simp add: isdigit_Some d digit_of_code [OF d] Let_def)
    moreover have "\<exists>e s'. variables_digits ?s2 = Inl (FormatError e, s')
        \<and> (e = MaximumVariableWayTooBig \<or> e = MaximumVariableTooBig)"
      using ds Cons.prems(2,4) fits 1
      by (intro Cons.IH [of ?a]) (auto simp: decval_Cons moved_def)
    ultimately show ?thesis by simp
  qed
qed

text \<open>A header whose parts are well formed, with any number for the variables.\<close>

definition header_shape :: "header \<Rightarrow> bool" where
  "header_shape h \<longleftrightarrow>
     list_all (\<lambda>(t, e). plain t) (comments h) \<and> blanks (pad1 h) \<and> blanks (pad2 h) \<and>
     blanks (pad3 h) \<and> nclauses h \<le> 18446744073709551615"

lemma wf_header_shape: "wf_header h \<longleftrightarrow> header_shape h \<and> int (nvars h) \<le> INT_MAX"
  by (auto simp: wf_header_def header_shape_def INT_MAX_def)

text \<open>
  C2. The header is read with every number of variables up to \<^verbatim>\<open>INT_MAX\<close>, which then is
  the value of \<^verbatim>\<open>variables\<close>; with \<^verbatim>\<open>INT_MAX + 1\<close> and every larger number it fails with one of
  the two errors of the overflow checks, raised while the digits are read, whatever
  follows them.
\<close>

theorem variables_up_to_INT_MAX:
  assumes "header_shape h"
  shows "(int (nvars h) \<le> INT_MAX \<longrightarrow>
            (\<exists>s'. parse_header (initial (render_header h @ rest)) = Inr (nclauses h, s')
               \<and> variables s' = int (nvars h) \<and> infile s' = rest))
       \<and> (INT_MAX < int (nvars h) \<longrightarrow>
            (\<exists>e s'. parse_header (initial (render_header h @ rest)) = Inl (FormatError e, s')
               \<and> (e = MaximumVariableWayTooBig \<or> e = MaximumVariableTooBig)))"
proof (intro conjI impI)
  let ?s = "initial (render_header h @ rest)"
  have inp: "infile ?s = render_header h @ rest" by (simp add: initial_def)
  {
    assume "int (nvars h) \<le> INT_MAX"
    with assms have "wf_header h" by (simp add: wf_header_shape)
    from parse_header_wf [OF this inp]
    show "\<exists>s'. parse_header ?s = Inr (nclauses h, s')
        \<and> variables s' = int (nvars h) \<and> infile s' = rest"
      by blast
  next
    assume big: "INT_MAX < int (nvars h)"
    obtain c cs where d: "dec (nvars h) = c # cs" "is_digit c" "list_all is_digit cs"
      "decval (digit_val c) cs = nvars h" "cs = [] \<or> 0 < digit_val c"
      by (rule dec_split [of "nvars h"])
    have c: "0 < digit_val c" "digit_val c \<le> 2147483647"
      using d(4,5) big digit_val_le [OF d(2)] by (auto simp: INT_MAX_def decval_Nil)
    let ?r = "cs @ '' '' @ pad2 h @ dec (nclauses h) @ pad3 h @ render_eol (ending h) @ rest"
    from assms have cms: "list_all (\<lambda>(t, e). plain t) (comments h)" and p1: "blanks (pad1 h)"
      by (simp_all add: header_shape_def)
    have "infile ?s = concat (map render_comment (comments h)) @ ''p cnf '' @ pad1 h @ c # ?r"
      by (simp add: initial_def render_header_def d(1))
    from header_start_wf [OF cms p1 this, of "Some c" ?r] obtain s1 where
      1: "header_start ?s = Inr (Some c, s1)" "moved ?s ?r s1"
      using is_digit_not_blank [OF d(2)] is_digit_not_CR [OF d(2)] by (auto simp: peek_Cons)
    let ?s1 = "s1\<lparr>variables := int (digit_val c)\<rparr>"
    have "infile ?s1 = cs @ '' '' @ pad2 h @ dec (nclauses h) @ pad3 h @ render_eol (ending h)
        @ rest" "variables ?s1 = int (digit_val c)"
      using 1 by (simp_all add: moved_def)
    from variables_digits_overflow [OF d(3) c _ this] obtain e s' where
      2: "variables_digits ?s1 = Inl (FormatError e, s')"
        "e = MaximumVariableWayTooBig \<or> e = MaximumVariableTooBig"
      using big d(4) by (auto simp: INT_MAX_def)
    have "parse_header ?s = Inl (FormatError e, s')"
      using 1 2 by (simp add: parse_header_def seq_def isdigit_Some d(2) digit_of_code [OF d(2)])
    with 2(2) show "\<exists>e s'. parse_header ?s = Inl (FormatError e, s')
        \<and> (e = MaximumVariableWayTooBig \<or> e = MaximumVariableTooBig)"
      by blast
  }
qed

text \<open>The headers \<^verbatim>\<open>p cnf 2147483647 1\<close> and \<^verbatim>\<open>p cnf 2147483648 1\<close>.\<close>

theorem variables_up_to_INT_MAX_witness:
  "header_shape
     \<lparr>comments = [], pad1 = [], nvars = 2147483647, pad2 = [], nclauses = 1, pad3 = [],
      ending = Unix\<rparr>
   \<and> (\<exists>s'. parse_header (initial ''p cnf 2147483647 1\<newline>'') = Inr (1, s')
         \<and> variables s' = INT_MAX \<and> infile s' = [])
   \<and> (\<exists>e s'. parse_header (initial ''p cnf 2147483648 1\<newline>'') = Inl (FormatError e, s')
         \<and> (e = MaximumVariableWayTooBig \<or> e = MaximumVariableTooBig))
   \<and> (\<exists>s'. parse_header (initial ''p cnf 2147483648 1\<newline>'') =
         Inl (FormatError MaximumVariableTooBig, s'))"
proof -
  let ?h = "\<lparr>comments = [], pad1 = [], nvars = 2147483647, pad2 = [], nclauses = 1, pad3 = [],
      ending = Unix\<rparr>"
  let ?h' = "\<lparr>comments = [], pad1 = [], nvars = 2147483648, pad2 = [], nclauses = 1, pad3 = [],
      ending = Unix\<rparr>"
  have s: "header_shape ?h" "header_shape ?h'" by (simp_all add: header_shape_def wf_eval)
  have r: "render_header ?h @ [] = ''p cnf 2147483647 1\<newline>''"
    "render_header ?h' @ [] = ''p cnf 2147483648 1\<newline>''"
    by (simp_all add: render_eval)
  have n: "int (nvars ?h) \<le> INT_MAX" "INT_MAX < int (nvars ?h')" "int (nvars ?h) = INT_MAX"
    by (simp_all add: INT_MAX_def)
  have e: "\<exists>s'. parse_header (initial ''p cnf 2147483648 1\<newline>'') =
         Inl (FormatError MaximumVariableTooBig, s')"
    by (simp add: parse_eval)
  from variables_up_to_INT_MAX [OF s(1), of "[]"] variables_up_to_INT_MAX [OF s(2), of "[]"]
    n s(1) e
  show ?thesis unfolding r by (simp add: INT_MAX_def)
qed

subsection \<open>Every number handed to the solver fits an \<^verbatim>\<open>int\<close>\<close>

text \<open>
  \<open>keeps s r\<close>: the step with result \<open>r\<close>, started in \<open>s\<close>, has handed nothing to the solver
  and has not failed an assertion.
\<close>

definition keeps :: "pstate \<Rightarrow> 'a result \<Rightarrow> bool" where
  "keeps s r =
     (case r of
        Inl (f, s') \<Rightarrow> f \<noteq> AssertionFailed \<and> solver s' = solver s
      | Inr (x, s') \<Rightarrow> solver s' = solver s)"

lemma keeps_Inr [simp]: "keeps s (Inr (x, s')) = (solver s' = solver s)"
  by (simp add: keeps_def)

lemma keeps_parse_error [simp]: "keeps s (parse_error e s') = (solver s' = solver s)"
  by (simp add: keeps_def parse_error_def)

lemma keeps_solver: "solver s1 = solver s \<Longrightarrow> keeps s1 r \<Longrightarrow> keeps s r"
  by (simp add: keeps_def split: sum.splits prod.splits)

lemma keeps_seq:
  assumes "keeps s m" and "\<And>x s'. m = Inr (x, s') \<Longrightarrow> keeps s' (k x s')"
  shows "keeps s (seq m k)"
proof (cases m)
  case (Inl a)
  then have "seq m k = Inl a" by (simp add: seq_def)
  moreover have "keeps s (Inl a)" using assms(1) Inl by (simp add: keeps_def)
  ultimately show ?thesis by (simp add: keeps_def)
next
  case (Inr b)
  then obtain x s' where m: "m = Inr (x, s')" by (cases b) auto
  have 1: "keeps s' (k x s')" using m by (rule assms(2))
  have 2: "solver s' = solver s" using assms(1) unfolding m by simp
  have "keeps s (k x s')" using 2 1 by (rule keeps_solver)
  moreover have "seq m k = k x s'" unfolding m by (simp add: seq_def)
  ultimately show ?thesis by simp
qed

lemma keeps_next_ch: "keeps s (next_ch s)"
  by (auto simp: keeps_def next_ch_def getc_def parse_error_def Let_def
           split: list.splits if_splits)

lemma next_ch_solver: "next_ch s = Inr (ch, s1) \<Longrightarrow> solver s1 = solver s"
  using keeps_next_ch [of s] by simp

lemma next_ch_Inl: "next_ch s = Inl (f, s1) \<Longrightarrow> f \<noteq> AssertionFailed \<and> solver s1 = solver s"
  using keeps_next_ch [of s] by (simp add: keeps_def)

lemma keeps_header_comment: "keeps s (header_comment s)"
proof (induction s rule: header_comment.induct)
  case (1 s)
  show ?case
  proof (cases "next_ch s")
    case (Inl a)
    with keeps_next_ch [of s] show ?thesis
      by (subst header_comment.simps) (simp add: keeps_def)
  next
    case (Inr b)
    obtain ch s1 where b: "b = (ch, s1)" by (cases b)
    have s1: "solver s1 = solver s" using Inr b by (simp add: next_ch_solver)
    show ?thesis
    proof (cases "ch \<noteq> Some LF \<and> ch \<noteq> EOF")
      case True
      with "1.IH" [OF Inr b [symmetric]] have "keeps s1 (header_comment s1)" by simp
      with s1 have "keeps s (header_comment s1)" by (rule keeps_solver)
      moreover have "header_comment s = header_comment s1"
        using True Inr b by (subst header_comment.simps) auto
      ultimately show ?thesis by simp
    next
      case False
      with Inr b s1 show ?thesis
        by (subst header_comment.simps) auto
    qed
  qed
qed

lemma keeps_comment: "keeps s (comment s)"
proof (induction s rule: comment.induct)
  case (1 s)
  show ?case
  proof (cases "next_ch s")
    case (Inl a)
    with keeps_next_ch [of s] show ?thesis
      by (subst comment.simps) (simp add: keeps_def)
  next
    case (Inr b)
    obtain ch s1 where b: "b = (ch, s1)" by (cases b)
    have s1: "solver s1 = solver s" using Inr b by (simp add: next_ch_solver)
    show ?thesis
    proof (cases "ch \<noteq> Some LF \<and> ch \<noteq> EOF")
      case True
      with "1.IH" [OF Inr b [symmetric]] have "keeps s1 (comment s1)" by simp
      with s1 have "keeps s (comment s1)" by (rule keeps_solver)
      moreover have "comment s = comment s1"
        using True Inr b by (subst comment.simps) auto
      ultimately show ?thesis by simp
    next
      case False
      with Inr b s1 show ?thesis
        by (subst comment.simps) auto
    qed
  qed
qed

text \<open>
  The loop of lines 330 to 341 keeps the value between 0 and \<^verbatim>\<open>INT_MAX\<close>: the two checks
  come before the multiplication and the addition, so neither leaves the range of \<^verbatim>\<open>int\<close>.
\<close>

lemma lit_step_range:
  assumes "0 \<le> a" and "\<not> INT_MAX div 10 < a" and "0 \<le> d" and "d \<le> 9"
    and "\<not> int32 (INT_MAX - d) < int32 (a * 10)"
  shows "int32 (a * 10) = a * 10" and "int32 (a * 10 + d) = a * 10 + d"
    and "0 \<le> a * 10 + d" and "a * 10 + d \<le> INT_MAX"
proof -
  from assms(1,2) have a: "a \<le> 214748364" by (simp add: INT_MAX_def)
  with assms(1) show 1: "int32 (a * 10) = a * 10" by (simp add: int32_id)
  from assms(3,4) have "int32 (INT_MAX - d) = INT_MAX - d" by (simp add: int32_id INT_MAX_def)
  with assms(5) 1 show 2: "a * 10 + d \<le> INT_MAX" by simp
  from assms(1,3) show 3: "0 \<le> a * 10 + d" by simp
  from 2 3 show "int32 (a * 10 + d) = a * 10 + d" by (simp add: int32_id INT_MAX_def)
qed

lemma digit_range: "isdigit ch \<Longrightarrow>
    0 \<le> int32 (code ch - code (Some CHR ''0'')) \<and> int32 (code ch - code (Some CHR ''0'')) \<le> 9"
  by (cases ch) (auto simp: isdigit_def code_def int32_id)

lemma lit_digits_range:
  assumes "0 \<le> a" and "a \<le> INT_MAX"
  shows "case lit_digits a s of
           Inl (f, s') \<Rightarrow> f \<noteq> AssertionFailed \<and> solver s' = solver s
         | Inr ((v, ch), s') \<Rightarrow> 0 \<le> v \<and> v \<le> INT_MAX \<and> solver s' = solver s"
  using assms
proof (induction a s rule: lit_digits.induct)
  case (1 lit s)
  show ?case
  proof (cases "next_ch s")
    case (Inl b)
    obtain f s1 where "b = (f, s1)" by (cases b)
    with Inl next_ch_Inl [of s f s1] show ?thesis
      by (subst lit_digits.simps) simp
  next
    case (Inr b)
    obtain ch s1 where b: "b = (ch, s1)" by (cases b)
    have s1: "solver s1 = solver s" using Inr b by (simp add: next_ch_solver)
    define digit where "digit = int32 (code ch - code (Some CHR ''0''))"
    show ?thesis
    proof (cases "isdigit ch \<and> lit \<noteq> 0 \<and> \<not> INT_MAX div 10 < lit
        \<and> \<not> int32 (INT_MAX - digit) < int32 (lit * 10)")
      case True
      then have d: "0 \<le> digit" "digit \<le> 9" using digit_range [of ch] by (simp_all add: digit_def)
      from True have g: "\<not> INT_MAX div 10 < lit" "\<not> int32 (INT_MAX - digit) < int32 (lit * 10)"
        by simp_all
      note r = lit_step_range [OF "1.prems"(1) g(1) d g(2)]
      note r1 = r(1) and r2 = r(2) and r3 = r(3) and r4 = r(4)
      have "case lit_digits (int32 (int32 (lit * 10) + digit)) s1 of
           Inl (f, s') \<Rightarrow> f \<noteq> AssertionFailed \<and> solver s' = solver s1
         | Inr ((v, ch), s') \<Rightarrow> 0 \<le> v \<and> v \<le> INT_MAX \<and> solver s' = solver s1"
        using "1.IH" [OF Inr b [symmetric] _ _ _ refl refl] True r1 r2 r3 r4
        by (simp add: digit_def)
      moreover have "lit_digits lit s = lit_digits (int32 (int32 (lit * 10) + digit)) s1"
        using True Inr b by (subst lit_digits.simps) (simp add: Let_def digit_def)
      ultimately show ?thesis using s1 by (simp split: sum.splits prod.splits)
    next
      case False
      with Inr b s1 "1.prems" show ?thesis
        by (subst lit_digits.simps)
           (auto simp: Let_def digit_def parse_error_def split: if_splits)
    qed
  qed
qed

text \<open>A number for the solver: neither \<^verbatim>\<open>INT_MIN\<close> nor of an absolute value above \<^verbatim>\<open>INT_MAX\<close>.\<close>

definition fits_int :: "int \<Rightarrow> bool" where
  "fits_int l \<longleftrightarrow> \<bar>l\<bar> \<le> INT_MAX \<and> l \<noteq> INT_MIN"

text \<open>
  One number, lines 313 to 362: the value of the digits is between 0 and \<^verbatim>\<open>INT_MAX\<close>, so
  the multiplication with the sign stays in the range of \<^verbatim>\<open>int\<close>, the assertions of lines
  343 and 349 hold, and what \<^verbatim>\<open>satch_add\<close> gets fits. The assertion of line 325 holds when
  it held before the number.
\<close>

lemma literal_sign_range:
  "case literal_sign ch s of
     Inl (f, s') \<Rightarrow> f \<noteq> AssertionFailed \<and> solver s' = solver s
   | Inr ((c, sign), s') \<Rightarrow> isdigit c \<and> (sign = 1 \<or> sign = - 1) \<and> solver s' = solver s"
proof (cases "ch = Some CHR ''-''")
  case True
  show ?thesis
  proof (cases "next_ch s")
    case (Inl b)
    obtain f s1 where "b = (f, s1)" by (cases b)
    with Inl True next_ch_Inl [of s f s1] show ?thesis
      by (simp add: literal_sign_def seq_def)
  next
    case (Inr b)
    obtain c s1 where b: "b = (c, s1)" by (cases b)
    have "solver s1 = solver s" using Inr b by (simp add: next_ch_solver)
    with True Inr b show ?thesis
      by (simp add: literal_sign_def seq_def parse_error_def)
  qed
next
  case False
  then show ?thesis by (simp add: literal_sign_def parse_error_def)
qed

lemma literal_number_range:
  assumes "p \<le> m" and "isdigit c" and "sign = 1 \<or> sign = - 1"
  shows "case literal_number m p (c, sign) s of
           Inl (f, s') \<Rightarrow> f \<noteq> AssertionFailed \<and> solver s' = solver s
         | Inr ((p', lit, ch'), s') \<Rightarrow>
             p' \<le> m \<and> fits_int lit \<and> solver s' = solver s @ [lit]"
proof (cases "p = m")
  case True
  then show ?thesis by (simp add: literal_number_def parse_error_def)
next
  case False
  with assms(1) have pm: "p < m" by simp
  then have p': "size_t (p + 1) \<le> m"
    using mod_less_eq_dividend [of "p + 1" 18446744073709551616] by (simp add: size_t_def)
  from digit_range [OF assms(2)] have
    "0 \<le> int32 (code c - code (Some CHR ''0''))"
    "int32 (code c - code (Some CHR ''0'')) \<le> INT_MAX"
    by (simp_all add: INT_MAX_def)
  note lr = lit_digits_range [OF this, of s]
  show ?thesis
  proof (cases "lit_digits (int32 (code c - code (Some CHR ''0''))) s")
    case (Inl b)
    obtain f s1 where "b = (f, s1)" by (cases b)
    with lr Inl pm show ?thesis by (simp add: literal_number_def seq_def)
  next
    case (Inr b)
    obtain v ch' s2 where b: "b = ((v, ch'), s2)" by (cases b) auto
    from lr Inr b have v: "0 \<le> v" "v \<le> INT_MAX" and s2: "solver s2 = solver s"
      by simp_all
    from v assms(3) have w: "int32 (v * sign) = v * sign" "v \<noteq> INT_MIN"
      "v * sign \<noteq> INT_MIN" "fits_int (v * sign)"
      by (auto simp: int32_id INT_MAX_def INT_MIN_def fits_int_def)
    have "literal_number m p (c, sign) s =
      (if ch' \<noteq> Some SPACE \<and> ch' \<noteq> Some TAB \<and> ch' \<noteq> Some LF \<and> ch' \<noteq> Some CHR ''c'' then
         parse_error (UnexpectedCharacterAfter (v * sign)) s2
       else if int32 \<bar>v * sign\<bar> > variables s2 then
         parse_error (LiteralExceedsMaximumVariable (v * sign) (variables s2)) s2
       else Inr ((if v * sign = 0 then size_t (p + 1) else p, v * sign, ch'),
              s2\<lparr>solver := solver s2 @ [v * sign]\<rparr>))"
      using Inr b pm w by (simp add: literal_number_def seq_def Let_def)
    then show ?thesis
      using pm p' s2 w(4) by (simp add: parse_error_def)
  qed
qed

lemma literal_range:
  assumes "p \<le> m"
  shows "case literal m p ch s of
           Inl (f, s') \<Rightarrow> f \<noteq> AssertionFailed \<and> solver s' = solver s
         | Inr ((p', lit, ch'), s') \<Rightarrow>
             p' \<le> m \<and> fits_int lit \<and> solver s' = solver s @ [lit]"
proof (cases "literal_sign ch s")
  case (Inl b)
  obtain f s1 where "b = (f, s1)" by (cases b)
  with Inl literal_sign_range [where ch = ch and s = s] show ?thesis
    by (simp add: literal_def seq_def)
next
  case (Inr b)
  obtain c sign s1 where b: "b = ((c, sign), s1)" by (cases b) auto
  with Inr literal_sign_range [where ch = ch and s = s] have
    c: "isdigit c" "sign = 1 \<or> sign = - 1" and s1: "solver s1 = solver s"
    by simp_all
  have "literal m p ch s = literal_number m p (c, sign) s1"
    using Inr b by (simp add: literal_def seq_def)
  with literal_number_range [OF assms c, of s1] s1 show ?thesis
    by (simp split: sum.splits prod.splits)
qed

lemma keeps_header_comments: "keeps s (header_comments s)"
proof (induction s rule: header_comments.induct)
  case (1 s)
  show ?case
  proof (cases "next_ch s")
    case (Inl a)
    with keeps_next_ch [of s] show ?thesis
      by (subst header_comments.simps) (simp add: keeps_def)
  next
    case (Inr b)
    obtain ch s1 where b: "b = (ch, s1)" by (cases b)
    have s1: "solver s1 = solver s" using Inr b by (simp add: next_ch_solver)
    show ?thesis
    proof (cases "ch = Some CHR ''c''")
      case False
      with Inr b s1 show ?thesis
        by (subst header_comments.simps) simp
    next
      case True
      show ?thesis
      proof (cases "header_comment s1")
        case (Inl a)
        with keeps_header_comment [of s1] have "keeps s1 (Inl a :: (char option) result)"
          by (simp add: keeps_def)
        with s1 have "keeps s (Inl a :: (char option) result)" by (rule keeps_solver)
        moreover have "header_comments s = Inl a"
          using True Inr b Inl by (subst header_comments.simps) simp
        ultimately show ?thesis by simp
      next
        case r: (Inr c)
        obtain u s2 where c: "c = (u, s2)" by (cases c)
        have s2: "solver s2 = solver s"
          using keeps_header_comment [of s1] r c s1 by simp
        have "keeps s2 (header_comments s2)"
          using "1.IH" [OF Inr b [symmetric] True r c [symmetric]] .
        with s2 have "keeps s (header_comments s2)" by (rule keeps_solver)
        moreover have "header_comments s = header_comments s2"
          using True Inr b r c by (subst header_comments.simps) simp
        ultimately show ?thesis by simp
      qed
    qed
  qed
qed

lemma keeps_skip_blanks: "keeps s (skip_blanks s)"
proof (induction s rule: skip_blanks.induct)
  case (1 s)
  show ?case
  proof (cases "next_ch s")
    case (Inl a)
    with keeps_next_ch [of s] show ?thesis
      by (subst skip_blanks.simps) (simp add: keeps_def)
  next
    case (Inr b)
    obtain ch s1 where b: "b = (ch, s1)" by (cases b)
    have s1: "solver s1 = solver s" using Inr b by (simp add: next_ch_solver)
    show ?thesis
    proof (cases "ch = Some SPACE \<or> ch = Some TAB")
      case True
      with "1.IH" [OF Inr b [symmetric]] have "keeps s1 (skip_blanks s1)" by simp
      with s1 have "keeps s (skip_blanks s1)" by (rule keeps_solver)
      moreover have "skip_blanks s = skip_blanks s1"
        using True Inr b by (subst skip_blanks.simps) auto
      ultimately show ?thesis by simp
    next
      case False
      with Inr b s1 show ?thesis
        by (subst skip_blanks.simps) auto
    qed
  qed
qed

lemma keeps_expect: "keeps s (expect c e s)"
  unfolding expect_def seq_def
  using keeps_next_ch [of s]
  by (auto simp: keeps_def parse_error_def split: sum.splits)

lemma keeps_variables_digits: "keeps s (variables_digits s)"
proof (induction s rule: variables_digits.induct)
  case (1 s)
  show ?case
  proof (cases "next_ch s")
    case (Inl a)
    with keeps_next_ch [of s] show ?thesis
      by (subst variables_digits.simps) (simp add: keeps_def)
  next
    case (Inr b)
    obtain ch s1 where b: "b = (ch, s1)" by (cases b)
    have s1: "solver s1 = solver s" using Inr b by (simp add: next_ch_solver)
    define digit where "digit = int32 (code ch - code (Some CHR ''0''))"
    define s2 where "s2 = s1\<lparr>variables := int32 (variables s1 * 10)\<rparr>"
    define s3 where "s3 = s2\<lparr>variables := int32 (variables s2 + digit)\<rparr>"
    have s3: "solver s3 = solver s" using s1 by (simp add: s3_def s2_def)
    show ?thesis
    proof (cases "isdigit ch \<and> variables s1 \<noteq> 0 \<and> \<not> INT_MAX div 10 < variables s1
        \<and> \<not> int32 (INT_MAX - digit) < variables s2")
      case True
      have "keeps s3 (variables_digits s3)"
        using "1.IH" [OF Inr b [symmetric] _ _ _ refl refl] True
        by (simp add: s3_def s2_def digit_def)
      with s3 have "keeps s (variables_digits s3)" by (rule keeps_solver)
      moreover have "variables_digits s = variables_digits s3"
        using True Inr b
        by (subst variables_digits.simps) (simp add: Let_def s3_def s2_def digit_def)
      ultimately show ?thesis by simp
    next
      case False
      with Inr b s1 show ?thesis
        by (subst variables_digits.simps)
           (auto simp: Let_def s2_def digit_def split: if_splits)
    qed
  qed
qed

lemma keeps_clauses_digits: "keeps s (clauses_digits a s)"
proof (induction a s rule: clauses_digits.induct)
  case (1 a s)
  show ?case
  proof (cases "next_ch s")
    case (Inl b)
    with keeps_next_ch [of s] show ?thesis
      by (subst clauses_digits.simps) (simp add: keeps_def)
  next
    case (Inr b)
    obtain ch s1 where b: "b = (ch, s1)" by (cases b)
    have s1: "solver s1 = solver s" using Inr b by (simp add: next_ch_solver)
    define digit where "digit = int32 (code ch - code (Some CHR ''0''))"
    define a2 where "a2 = size_t (a * 10)"
    show ?thesis
    proof (cases "isdigit ch \<and> a \<noteq> 0 \<and> \<not> MAX_SIZE_T div 10 < a
        \<and> \<not> size_t (MAX_SIZE_T + 18446744073709551616 - nat digit) < a2")
      case True
      have "keeps s1 (clauses_digits (size_t (a2 + nat digit)) s1)"
        using "1.IH" [OF Inr b [symmetric] _ _ _ refl refl] True
        by (simp add: a2_def digit_def)
      with s1 have "keeps s (clauses_digits (size_t (a2 + nat digit)) s1)"
        by (rule keeps_solver)
      moreover have "clauses_digits a s = clauses_digits (size_t (a2 + nat digit)) s1"
        using True Inr b
        by (subst clauses_digits.simps) (simp add: Let_def a2_def digit_def)
      ultimately show ?thesis by simp
    next
      case False
      with Inr b s1 show ?thesis
        by (subst clauses_digits.simps)
           (auto simp: Let_def a2_def digit_def split: if_splits)
    qed
  qed
qed

lemma keeps_header_start: "keeps s (header_start s)"
  unfolding header_start_def
  by (intro keeps_seq keeps_header_comments keeps_expect keeps_skip_blanks)
     (auto intro!: keeps_seq keeps_expect keeps_skip_blanks)

lemma keeps_parse_header: "keeps s (parse_header s)"
  unfolding parse_header_def
  by (intro keeps_seq keeps_header_start)
     (auto intro!: keeps_seq keeps_skip_blanks keeps_clauses_digits
        keeps_solver [OF _ keeps_variables_digits])

text \<open>
  \<open>sound r\<close>: the run with result \<open>r\<close> has not failed an assertion, and every number the
  solver has got fits.
\<close>

definition sound :: "'a result \<Rightarrow> bool" where
  "sound r =
     (case r of
        Inl (f, s') \<Rightarrow> f \<noteq> AssertionFailed \<and> list_all fits_int (solver s')
      | Inr (x, s') \<Rightarrow> list_all fits_int (solver s'))"

lemma sound_Inr: "sound (Inr (x, s')) = list_all fits_int (solver s')"
  by (simp add: sound_def)

lemma sound_Inl: "sound (Inl (f, s')) = (f \<noteq> AssertionFailed \<and> list_all fits_int (solver s'))"
  by (simp add: sound_def)

lemma keeps_sound: "keeps s r \<Longrightarrow> list_all fits_int (solver s) \<Longrightarrow> sound r"
  by (auto simp: keeps_def sound_def split: sum.splits)

lemma comment_solver: "comment s = Inr (u, s') \<Longrightarrow> solver s' = solver s"
  using keeps_comment [of s] by simp

lemma body_sound:
  "p \<le> m \<Longrightarrow> list_all fits_int (solver s) \<Longrightarrow> sound (body m (p, l) s)"
proof (induction "length (infile s)" arbitrary: s p l rule: less_induct)
  case less
  note IH = less.hyps and p = less.prems(1) and ok = less.prems(2)
  show ?case
  proof (cases "next_ch s")
    case (Inl a)
    then have "body m (p, l) s = Inl a" by (subst body.simps) simp
    moreover have "sound (Inl a :: (nat \<times> int) result)"
      using keeps_next_ch [of s] Inl ok by (auto simp: keeps_def sound_def)
    ultimately show ?thesis by simp
  next
    case (Inr b)
    obtain ch s1 where b: "b = (ch, s1)" by (cases b)
    have s1: "solver s1 = solver s" using Inr b by (simp add: next_ch_solver)
    with ok have ok1: "list_all fits_int (solver s1)" by simp
    consider (blank) "ch = Some SPACE \<or> ch = Some TAB \<or> ch = Some LF"
      | (eof) "ch = EOF"
      | (comment) "ch = Some CHR ''c''"
      | (number) c where "ch = Some c" "c \<noteq> SPACE" "c \<noteq> TAB" "c \<noteq> LF" "c \<noteq> CHR ''c''"
      by (cases ch) auto
    then show ?thesis
    proof cases
      case blank
      then obtain c where "ch = Some c" by auto
      with Inr b have "length (infile s1) < length (infile s)" by (auto dest: next_ch_shorter)
      from IH [OF this p ok1] have "sound (body m (p, l) s1)" .
      moreover have "body m (p, l) s = body m (p, l) s1"
        using Inr b blank by (subst body.simps) auto
      ultimately show ?thesis by simp
    next
      case eof
      then have "body m (p, l) s = Inr ((p, l), s1)"
        using Inr b by (subst body.simps) simp
      with ok1 show ?thesis by (simp add: sound_Inr)
    next
      case comment
      with Inr b have lt: "length (infile s1) < length (infile s)"
        by (auto dest: next_ch_shorter)
      have bd: "body m (p, l) s =
          (case comment s1 of Inl f \<Rightarrow> Inl f | Inr (u, s2) \<Rightarrow> body m (p, l) s2)"
        using Inr b comment by (subst body.simps) simp
      show ?thesis
      proof (cases "comment s1")
        case (Inl a)
        with keeps_comment [of s1] ok1 have "sound (Inl a :: (nat \<times> int) result)"
          by (auto simp: keeps_def sound_def)
        with bd Inl show ?thesis by simp
      next
        case r: (Inr d)
        obtain u s2 where d: "d = (u, s2)" by (cases d)
        from r d have "length (infile s2) \<le> length (infile s1)" "solver s2 = solver s1"
          by (auto dest: comment_not_longer comment_solver)
        with lt ok1 have "length (infile s2) < length (infile s)" "list_all fits_int (solver s2)"
          by simp_all
        from IH [OF this(1) p this(2)] have "sound (body m (p, l) s2)" .
        with bd r d show ?thesis by simp
      qed
    next
      case number
      with Inr b have lt: "length (infile s1) < length (infile s)"
        by (auto dest: next_ch_shorter)
      have bd: "body m (p, l) s =
          (case literal m p ch s1 of
             Inl f \<Rightarrow> Inl f
           | Inr ((p', lit', ch'), s2) \<Rightarrow>
               if ch' = Some CHR ''c'' then
                 (case comment s2 of
                    Inl f \<Rightarrow> Inl f
                  | Inr (u, s3) \<Rightarrow> body m (p', lit') s3)
               else body m (p', lit') s2)"
        using Inr b number by (subst body.simps) simp
      note lr = literal_range [OF p, where ch = ch and s = s1]
      show ?thesis
      proof (cases "literal m p ch s1")
        case (Inl a)
        with lr ok1 have "sound (Inl a :: (nat \<times> int) result)"
          by (auto simp: sound_def)
        with bd Inl show ?thesis by simp
      next
        case r: (Inr d)
        obtain p' lit' ch' s2 where d: "d = ((p', lit', ch'), s2)" by (cases d) auto
        from lr r d have p': "p' \<le> m" and "fits_int lit'" "solver s2 = solver s1 @ [lit']"
          by simp_all
        with ok1 have ok2: "list_all fits_int (solver s2)" by simp
        from r d have "length (infile s2) \<le> length (infile s1)"
          by (auto dest: literal_not_longer)
        with lt have lt2: "length (infile s2) < length (infile s)" by simp
        show ?thesis
        proof (cases "ch' = Some CHR ''c''")
          case False
          from IH [OF lt2 p' ok2] have "sound (body m (p', lit') s2)" .
          with bd r d False show ?thesis by simp
        next
          case True
          show ?thesis
          proof (cases "comment s2")
            case (Inl a)
            with keeps_comment [of s2] ok2 have "sound (Inl a :: (nat \<times> int) result)"
              by (auto simp: keeps_def sound_def)
            with bd r d True Inl show ?thesis by simp
          next
            case r3: (Inr e)
            obtain u s3 where e: "e = (u, s3)" by (cases e)
            from r3 e have "length (infile s3) \<le> length (infile s2)" "solver s3 = solver s2"
              by (auto dest: comment_not_longer comment_solver)
            with lt2 ok2 have "length (infile s3) < length (infile s)"
              "list_all fits_int (solver s3)"
              by simp_all
            from IH [OF this(1) p' this(2)] have "sound (body m (p', lit') s3)" .
            with bd r d True r3 e show ?thesis by simp
          qed
        qed
      qed
    qed
  qed
qed

lemma sound_check_end: "sound r \<Longrightarrow> sound (seq r (check_end m))"
  by (auto simp: sound_def seq_def check_end_def parse_error_def split: sum.splits)

text \<open>
  C10. Whatever the input, \<^verbatim>\<open>parse\<close> fails none of its assertions, among them the two that
  \<^verbatim>\<open>lit\<close> is not \<^verbatim>\<open>INT_MIN\<close>, and every number it has handed to the solver, whether it
  returns or ends with a parse error, has an absolute value of at most \<^verbatim>\<open>INT_MAX\<close> and is
  not \<^verbatim>\<open>INT_MIN\<close>. The loop over the digits keeps the value between 0 and \<^verbatim>\<open>INT_MAX\<close>
  (\<open>lit_digits_range\<close>), so the multiplication with the sign does not leave the range of
  \<^verbatim>\<open>int\<close> (\<open>literal_number_range\<close>).
\<close>

theorem literals_fit_int:
  "case parse (initial cs) of
     Inl (f, s') \<Rightarrow> f \<noteq> AssertionFailed \<and> list_all fits_int (solver s')
   | Inr (u, s') \<Rightarrow> list_all fits_int (solver s')"
proof -
  let ?s = "initial cs"
  have s: "solver ?s = []" by (simp add: initial_def)
  have "sound (parse ?s)"
  proof (cases "parse_header ?s")
    case (Inl a)
    then have "parse ?s = Inl a" by (simp add: parse_def seq_def)
    moreover have "sound (Inl a :: unit result)"
      using keeps_parse_header [of ?s] Inl s by (auto simp: keeps_def sound_def)
    ultimately show ?thesis by simp
  next
    case (Inr b)
    obtain m s1 where b: "b = (m, s1)" by (cases b)
    from keeps_parse_header [of ?s] Inr b s have "list_all fits_int (solver s1)" by simp
    then have "sound (body m (0, 0) s1)" by (intro body_sound) simp
    then have "sound (seq (body m (0, 0) s1) (check_end m))" by (rule sound_check_end)
    moreover have "parse ?s = seq (body m (0, 0) s1) (check_end m)"
      using Inr b by (simp add: parse_def seq_def)
    ultimately show ?thesis by simp
  qed
  then show ?thesis by (simp add: sound_def)
qed

text \<open>The example of the specification once more: seven numbers, all of them fitting.\<close>

theorem literals_fit_int_witness:
  "parse (initial ''p cnf 3 2\<newline>1 -2 0\<newline>-1 2 3 0\<newline>'') =
     Inr ((), \<lparr>infile = [], lineno = 4, bytes = 26, variables = 3,
       solver = [1, - 2, 0, - 1, 2, 3, 0]\<rparr>)
   \<and> list_all fits_int [1, - 2, 0, - 1, 2, 3, 0]"
proof -
  have e: "parse (initial ''p cnf 3 2\<newline>1 -2 0\<newline>-1 2 3 0\<newline>'') =
     Inr ((), \<lparr>infile = [], lineno = 4, bytes = 26, variables = 3,
       solver = [1, - 2, 0, - 1, 2, 3, 0]\<rparr>)"
    by (simp add: parse_eval)
  from literals_fit_int [of "''p cnf 3 2\<newline>1 -2 0\<newline>-1 2 3 0\<newline>''"]
  have "list_all fits_int [1, - 2, 0, - 1, 2, 3, 0]"
    unfolding e by simp
  with e show ?thesis by simp
qed

section \<open>The witness printer: lines 97 to 101 and 409 to 432\<close>

text \<open>
  The line buffer \<^verbatim>\<open>buffer\<close> of 80 bytes with its fill \<^verbatim>\<open>size_buffer\<close>, and what has been
  written to \<^verbatim>\<open>stdout\<close>.
\<close>

record printer =
  buffer :: "char list"
  size_buffer :: nat
  stdout :: "char list"

abbreviation NUL :: char where "NUL \<equiv> CHR 0x00"

text \<open>
  A failed \<^verbatim>\<open>assert\<close>, and a \<^verbatim>\<open>memcpy\<close> that would write behind the end of \<^verbatim>\<open>buffer\<close>.
\<close>

datatype abort = Assertion_failed | Out_of_bounds

text \<open>
  \<^verbatim>\<open>sprintf (tmp, " %d", lit)\<close>: a space and the decimal numeral of \<open>lit\<close>, with \<^verbatim>\<open>-\<close> before
  it when \<open>lit\<close> is negative.
\<close>

definition sprintf_d :: "int \<Rightarrow> char list" where
  "sprintf_d lit = SPACE # render_lit lit"

text \<open>\<^verbatim>\<open>fputs\<close> writes the bytes before the first \<^verbatim>\<open>NUL\<close>.\<close>

definition fputs :: "char list \<Rightarrow> printer \<Rightarrow> printer" where
  "fputs str p = p\<lparr>stdout := stdout p @ takeWhile (\<lambda>c. c \<noteq> NUL) str\<rparr>"

definition fputc :: "char \<Rightarrow> printer \<Rightarrow> printer" where
  "fputc c p = p\<lparr>stdout := stdout p @ [c]\<rparr>"

definition flush_printed_values :: "printer \<Rightarrow> abort + printer" where
  "flush_printed_values p0 =
     (if size_buffer p0 = 0 then Inr p0
      else if \<not> size_buffer p0 + 1 < 80 then Inl Assertion_failed
      else
        let p = p0\<lparr>buffer := (buffer p0)[size_buffer p0 := NUL],
                   size_buffer := size_buffer p0 + 1\<rparr>;
            p = fputc CHR ''v'' p;
            p = fputs (buffer p) p;
            p = fputc LF p
        in Inr (p\<lparr>size_buffer := 0\<rparr>))"

definition print_value :: "int \<Rightarrow> printer \<Rightarrow> abort + printer" where
  "print_value lit p0 =
     (let tmp = sprintf_d lit;
          size_tmp = length tmp
      in case (if size_buffer p0 + size_tmp > 77 then flush_printed_values p0 else Inr p0) of
           Inl a \<Rightarrow> Inl a
         | Inr p \<Rightarrow>
             if size_buffer p + size_tmp > 80 then Inl Out_of_bounds
             else Inr (p\<lparr>buffer := take (size_buffer p) (buffer p) @ tmp @
                           drop (size_buffer p + size_tmp) (buffer p),
                         size_buffer := size_buffer p + size_tmp\<rparr>))"

text \<open>
  Lines 625 to 628 of \<^verbatim>\<open>main\<close>: \<^verbatim>\<open>print_value\<close> for the value of each variable, here the
  list \<open>vals\<close>, then for 0, and \<^verbatim>\<open>flush_printed_values\<close>.
\<close>

fun print_values :: "int list \<Rightarrow> printer \<Rightarrow> abort + printer" where
  "print_values [] p = Inr p"
| "print_values (v # vs) p =
     (case print_value v p of Inl a \<Rightarrow> Inl a | Inr p' \<Rightarrow> print_values vs p')"

definition print_witness :: "int list \<Rightarrow> printer \<Rightarrow> abort + printer" where
  "print_witness vals p0 =
     (case print_values vals p0 of
        Inl a \<Rightarrow> Inl a
      | Inr p \<Rightarrow>
          (case print_value 0 p of
             Inl a \<Rightarrow> Inl a
           | Inr p \<Rightarrow> flush_printed_values p))"

text \<open>The printer when the program starts: static variables are zero.\<close>

definition printer0 :: printer where
  "printer0 = \<lparr>buffer = replicate 80 NUL, size_buffer = 0, stdout = []\<rparr>"

subsection \<open>The lines of the witness\<close>

text \<open>
  The part of the buffer in use, and the state the printer is in between two calls: 80
  bytes, at most 77 of them in use, no \<^verbatim>\<open>NUL\<close> and no new line among these.
\<close>

definition pending :: "printer \<Rightarrow> char list" where
  "pending p = take (size_buffer p) (buffer p)"

definition printer_ok :: "printer \<Rightarrow> bool" where
  "printer_ok p \<longleftrightarrow>
     length (buffer p) = 80 \<and> size_buffer p \<le> 77 \<and> NUL \<notin> set (pending p) \<and>
     LF \<notin> set (pending p)"

text \<open>A line of the witness as written: \<^verbatim>\<open>v\<close>, its text, and a new line.\<close>

definition v_line :: "char list \<Rightarrow> char list" where
  "v_line l = CHR ''v'' # l @ [LF]"

lemma length_dec: "n < 10 ^ k \<Longrightarrow> 0 < k \<Longrightarrow> length (dec n) \<le> k"
proof (induction n arbitrary: k rule: dec.induct)
  case (1 n)
  show ?case
  proof (cases "n < 10")
    case True
    with "1.prems" show ?thesis by (subst dec.simps) simp
  next
    case False
    with "1.prems" obtain j where k: "k = Suc j" by (cases k) auto
    with "1.prems" False have j: "0 < j" by (cases j) auto
    from "1.prems" k have "n div 10 < 10 ^ j"
      by (simp add: less_mult_imp_div_less mult.commute)
    from "1.IH" [OF False this j] have "length (dec (n div 10)) \<le> j" .
    with False k show ?thesis by (subst dec.simps) simp
  qed
qed

lemma sprintf_d_facts:
  assumes "INT_MIN \<le> v" and "v \<le> INT_MAX"
  shows "length (sprintf_d v) \<le> 12" and "sprintf_d v \<noteq> []"
    and "NUL \<notin> set (sprintf_d v)" and "LF \<notin> set (sprintf_d v)"
proof -
  have "nat \<bar>v\<bar> < 10 ^ 10" using assms by (simp add: INT_MIN_def INT_MAX_def)
  then have "length (dec (nat \<bar>v\<bar>)) \<le> 10" by (rule length_dec) simp
  then show "length (sprintf_d v) \<le> 12"
    by (cases "v < 0") (simp_all add: sprintf_d_def render_lit_def)
  show "sprintf_d v \<noteq> []" by (simp add: sprintf_d_def)
  have "list_all is_digit (dec (nat \<bar>v\<bar>))" by (rule dec_digits)
  then have "NUL \<notin> set (dec (nat \<bar>v\<bar>))" "LF \<notin> set (dec (nat \<bar>v\<bar>))"
    by (auto simp: list_all_iff is_digit_def)
  then show "NUL \<notin> set (sprintf_d v)" "LF \<notin> set (sprintf_d v)"
    by (cases "v < 0"; simp add: sprintf_d_def render_lit_def)+
qed

lemma takeWhile_update:
  assumes "n < length xs" and "\<forall>x \<in> set (take n xs). P x" and "\<not> P y"
  shows "takeWhile P (xs[n := y]) = take n xs"
proof -
  have "xs[n := y] = take n xs @ y # drop (Suc n) xs"
    using assms(1) by (rule upd_conv_take_nth_drop)
  with assms(2,3) show ?thesis by simp
qed

text \<open>
  \<^verbatim>\<open>flush_printed_values\<close> writes the part of the buffer in use as one line, if there is
  any, and empties the buffer.
\<close>

lemma flush_printed_values_ok:
  assumes "printer_ok p"
  obtains p' where "flush_printed_values p = Inr p'" and "printer_ok p'"
    and "pending p' = []"
    and "stdout p' = stdout p @ (if pending p = [] then [] else v_line (pending p))"
proof (cases "size_buffer p = 0")
  case True
  with assms show ?thesis
    by (intro that [of p]) (simp_all add: flush_printed_values_def pending_def)
next
  case False
  from assms have len: "length (buffer p) = 80" and size: "size_buffer p \<le> 77"
    and nul: "NUL \<notin> set (pending p)"
    by (simp_all add: printer_ok_def)
  have "takeWhile (\<lambda>c. c \<noteq> NUL) ((buffer p)[size_buffer p := NUL]) = pending p"
    unfolding pending_def using len size nul
    by (intro takeWhile_update) (auto simp: pending_def)
  moreover have "pending p \<noteq> []" using False len size by (auto simp: pending_def)
  ultimately show ?thesis
    using False len size
    by (intro that [of "p\<lparr>buffer := (buffer p)[size_buffer p := NUL], size_buffer := 0,
          stdout := stdout p @ v_line (pending p)\<rparr>"])
       (simp_all add: flush_printed_values_def fputc_def fputs_def Let_def printer_ok_def
          pending_def v_line_def)
qed

text \<open>
  \<^verbatim>\<open>print_value\<close> appends the text of the value to the buffer, after it has written the
  buffer as a line if the text would take it past 77 bytes.
\<close>

lemma print_value_ok:
  assumes "printer_ok p" and "INT_MIN \<le> v" and "v \<le> INT_MAX"
  obtains p' where "print_value v p = Inr p'" and "printer_ok p'"
    and "size_buffer p + length (sprintf_d v) \<le> 77 \<Longrightarrow>
           stdout p' = stdout p \<and> pending p' = pending p @ sprintf_d v"
    and "77 < size_buffer p + length (sprintf_d v) \<Longrightarrow>
           stdout p' = stdout p @ v_line (pending p) \<and> pending p \<noteq> [] \<and> pending p' = sprintf_d v"
proof -
  note f = sprintf_d_facts [OF assms(2,3)]
  let ?tmp = "sprintf_d v"
  have app: "printer_ok q \<Longrightarrow> size_buffer q + length ?tmp \<le> 77 \<Longrightarrow>
      printer_ok (q\<lparr>buffer := take (size_buffer q) (buffer q) @ ?tmp @
                      drop (size_buffer q + length ?tmp) (buffer q),
                    size_buffer := size_buffer q + length ?tmp\<rparr>)
      \<and> pending (q\<lparr>buffer := take (size_buffer q) (buffer q) @ ?tmp @
                      drop (size_buffer q + length ?tmp) (buffer q),
                    size_buffer := size_buffer q + length ?tmp\<rparr>) = pending q @ ?tmp" for q
    using f by (auto simp: printer_ok_def pending_def)
  show thesis
  proof (cases "77 < size_buffer p + length ?tmp")
    case False
    let ?p' = "p\<lparr>buffer := take (size_buffer p) (buffer p) @ ?tmp @
                      drop (size_buffer p + length ?tmp) (buffer p),
                    size_buffer := size_buffer p + length ?tmp\<rparr>"
    from False have le: "size_buffer p + length ?tmp \<le> 77" by simp
    have "print_value v p = Inr ?p'"
      using le by (simp add: print_value_def Let_def)
    moreover note app [OF assms(1) le]
    ultimately show ?thesis using False by (intro that [of ?p']) simp_all
  next
    case True
    from flush_printed_values_ok [OF assms(1)] obtain q where
      q: "flush_printed_values p = Inr q" "printer_ok q" "pending q = []"
        "stdout q = stdout p @ (if pending p = [] then [] else v_line (pending p))"
      by blast
    from True f(1) have "size_buffer p \<noteq> 0" by auto
    with assms(1) have ne: "pending p \<noteq> []" by (auto simp: printer_ok_def pending_def)
    from q(2,3) have z: "size_buffer q = 0" by (auto simp: printer_ok_def pending_def)
    let ?q' = "q\<lparr>buffer := take (size_buffer q) (buffer q) @ ?tmp @
                      drop (size_buffer q + length ?tmp) (buffer q),
                    size_buffer := size_buffer q + length ?tmp\<rparr>"
    from z f(1) have le: "size_buffer q + length ?tmp \<le> 77" by simp
    have "print_value v p = Inr ?q'"
      using True q(1) le by (simp add: print_value_def Let_def)
    moreover note app [OF q(2) le]
    ultimately show ?thesis using True q ne by (intro that [of ?q']) simp_all
  qed
qed

text \<open>
  The text of a line of the witness: not empty, at most 78 characters with the \<^verbatim>\<open>v\<close> before
  it, and no new line in it.
\<close>

definition line_ok :: "char list \<Rightarrow> bool" where
  "line_ok l \<longleftrightarrow> l \<noteq> [] \<and> length (CHR ''v'' # l) \<le> 78 \<and> LF \<notin> set l"

definition is_int :: "int \<Rightarrow> bool" where
  "is_int v \<longleftrightarrow> INT_MIN \<le> v \<and> v \<le> INT_MAX"

lemma line_ok_pending: "printer_ok p \<Longrightarrow> pending p \<noteq> [] \<Longrightarrow> line_ok (pending p)"
  by (auto simp: printer_ok_def line_ok_def pending_def)

lemma print_values_ok:
  "printer_ok p \<Longrightarrow> list_all is_int vals \<Longrightarrow>
     \<exists>p' ls. print_values vals p = Inr p' \<and> printer_ok p' \<and>
       stdout p' = stdout p @ concat (map v_line ls) \<and> list_all line_ok ls \<and>
       concat ls @ pending p' = pending p @ concat (map sprintf_d vals)"
proof (induction vals arbitrary: p)
  case Nil
  then show ?case by (intro exI [of _ p] exI [of _ "[]"]) simp
next
  case (Cons v vs)
  from Cons.prems have "is_int v" and vs: "list_all is_int vs" by simp_all
  then have v: "INT_MIN \<le> v" "v \<le> INT_MAX" by (simp_all add: is_int_def)
  from print_value_ok [OF Cons.prems(1) v] obtain q where
    q: "print_value v p = Inr q" "printer_ok q"
      "size_buffer p + length (sprintf_d v) \<le> 77 \<Longrightarrow>
         stdout q = stdout p \<and> pending q = pending p @ sprintf_d v"
      "77 < size_buffer p + length (sprintf_d v) \<Longrightarrow>
         stdout q = stdout p @ v_line (pending p) \<and> pending p \<noteq> [] \<and> pending q = sprintf_d v"
    by blast
  from Cons.IH [OF q(2) vs] obtain p' ls where
    r: "print_values vs q = Inr p'" "printer_ok p'"
      "stdout p' = stdout q @ concat (map v_line ls)" "list_all line_ok ls"
      "concat ls @ pending p' = pending q @ concat (map sprintf_d vs)"
    by blast
  show ?case
  proof (cases "77 < size_buffer p + length (sprintf_d v)")
    case False
    with q(3) have "stdout q = stdout p" "pending q = pending p @ sprintf_d v" by simp_all
    with q(1) r show ?thesis by (intro exI [of _ p'] exI [of _ ls]) simp
  next
    case True
    with q(4) have "stdout q = stdout p @ v_line (pending p)" "pending p \<noteq> []"
      "pending q = sprintf_d v" by simp_all
    moreover from this(2) Cons.prems(1) have "line_ok (pending p)" by (simp add: line_ok_pending)
    ultimately show ?thesis
      using q(1) r by (intro exI [of _ p'] exI [of _ "pending p # ls"]) simp
  qed
qed

lemma printer_ok_printer0: "printer_ok printer0" "pending printer0 = []" "stdout printer0 = []"
  by (simp_all add: printer_ok_def printer0_def pending_def)

text \<open>
  Claim C6. When \<^verbatim>\<open>main\<close> prints the witness, \<^verbatim>\<open>print_value\<close> for each value of a list of
  32-bit integers, then for the final 0, and then \<^verbatim>\<open>flush_printed_values\<close>, no assertion
  fails and no byte is written outside the buffer; what has been written is a sequence of
  lines, each of them \<^verbatim>\<open>v\<close>, a text that is not empty, and a new line, and each of at most 78
  characters with its \<^verbatim>\<open>v\<close>; the texts of the lines, one after the other, are the texts of
  the values and of the final 0 in their order, so that no value is lost and none is
  written twice; and the buffer is empty at the end, so that one more
  \<^verbatim>\<open>flush_printed_values\<close> writes nothing.
\<close>

theorem witness_lines_at_most_78:
  assumes "list_all is_int vals"
  shows "\<exists>p ls. print_witness vals printer0 = Inr p \<and>
           stdout p = concat (map v_line ls) \<and> list_all line_ok ls \<and>
           concat ls = concat (map sprintf_d (vals @ [0])) \<and>
           size_buffer p = 0 \<and> flush_printed_values p = Inr p"
proof -
  from print_values_ok [OF printer_ok_printer0(1) assms] obtain p1 ls1 where
    1: "print_values vals printer0 = Inr p1" "printer_ok p1"
      "stdout p1 = concat (map v_line ls1)" "list_all line_ok ls1"
      "concat ls1 @ pending p1 = concat (map sprintf_d vals)"
    by (auto simp: printer_ok_printer0)
  have "list_all is_int [0]" by (simp add: is_int_def INT_MIN_def INT_MAX_def)
  from print_values_ok [OF 1(2) this] obtain p2 ls2 where
    2: "print_values [0] p1 = Inr p2" "printer_ok p2"
      "stdout p2 = stdout p1 @ concat (map v_line ls2)" "list_all line_ok ls2"
      "concat ls2 @ pending p2 = pending p1 @ sprintf_d 0"
    by auto
  from 2(1) have pv: "print_value 0 p1 = Inr p2" by (simp split: sum.splits)
  from flush_printed_values_ok [OF 2(2)] obtain p where
    3: "flush_printed_values p2 = Inr p" "printer_ok p" "pending p = []"
      "stdout p = stdout p2 @ (if pending p2 = [] then [] else v_line (pending p2))"
    by blast
  from 3(2,3) have z: "size_buffer p = 0" by (auto simp: printer_ok_def pending_def)
  have run: "print_witness vals printer0 = Inr p"
    by (simp add: print_witness_def 1(1) pv 3(1))
  have again: "flush_printed_values p = Inr p" using z by (simp add: flush_printed_values_def)
  have all: "concat ls1 @ concat ls2 @ pending p2 = concat (map sprintf_d (vals @ [0]))"
    using 1(5) 2(5) by (simp flip: append_assoc)
  show ?thesis
  proof (cases "pending p2 = []")
    case True
    with 1 2 3 all z run again show ?thesis
      by (intro exI [of _ p] exI [of _ "ls1 @ ls2"]) simp
  next
    case False
    with 2(2) have "line_ok (pending p2)" by (simp add: line_ok_pending)
    with False 1 2 3 all z run again show ?thesis
      by (intro exI [of _ p] exI [of _ "ls1 @ ls2 @ [pending p2]"]) simp
  qed
qed

lemma replicate_unfold: "replicate (numeral k) x = x # replicate (pred_numeral k) x"
  by (simp add: numeral_eq_Suc)

lemmas print_eval = print_witness_def print_values.simps print_value_def
  flush_printed_values_def fputc_def fputs_def sprintf_d_def render_lit_def dec.simps
  digit_char_eval printer0_def Let_def replicate_unfold

lemma print_witness_example:
  "map_sum id stdout
     (print_witness [- 2147483648, - 2147483648, - 2147483648, - 2147483648, - 2147483648,
        - 2147483648, 1234] printer0) =
   Inr (''v -2147483648 -2147483648 -2147483648 -2147483648 -2147483648 -2147483648 1234'' @
        [LF] @ ''v 0'' @ [LF])"
  by (simp add: print_eval)

theorem witness_lines_at_most_78_witness:
  "list_all is_int [1, - 2, 3] \<and>
   (\<exists>p ls. print_witness [1, - 2, 3] printer0 = Inr p \<and>
      stdout p = concat (map v_line ls) \<and> list_all line_ok ls \<and>
      concat ls = concat (map sprintf_d ([1, - 2, 3] @ [0])) \<and>
      size_buffer p = 0 \<and> flush_printed_values p = Inr p)"
  using witness_lines_at_most_78 [of "[1, - 2, 3]"]
  by (simp add: is_int_def INT_MIN_def INT_MAX_def)

section \<open>The signal handler: lines 484 to 548\<close>

text \<open>
  The macro \<^verbatim>\<open>SIGNALS\<close> lists the five signals the program watches. Their numbers come
  from \<^verbatim>\<open>signal.h\<close>, which is not part of the sources, so the handler takes them as
  the parameter \<open>signo\<close>.
\<close>

datatype watched = SIGABRT | SIGBUS | SIGINT | SIGSEGV | SIGTERM

text \<open>
  A signal's disposition: the default action, ignoring it, the program's
  \<^verbatim>\<open>catch_signal\<close>, or some other function; and the null pointer, the value of a static
  pointer that has not been assigned.
\<close>

datatype handler = SIG_DFL | SIG_IGN | Catch_signal | Other_handler nat | Null_pointer

text \<open>
  What the handler does to the world, in order: the two \<^verbatim>\<open>printf\<close> calls with their
  arguments, \<^verbatim>\<open>fflush\<close>, the statistics of the solver, and \<^verbatim>\<open>raise\<close>.
\<close>

datatype effect =
    Print_caught_signal int string
  | Fflush_stdout
  | Satch_statistics
  | Print_raising_signal int string
  | Raise int

text \<open>
  Lines 500 to 504 declare the saved handlers with the macro
  \<^verbatim>\<open>static void (*saved_SIG ## _handler)(int);\<close> for each signal of \<^verbatim>\<open>SIGNALS\<close>. The operator
  \<^verbatim>\<open>##\<close> pastes the two tokens next to it, \<^verbatim>\<open>saved_SIG\<close> and \<^verbatim>\<open>_handler\<close>; the parameter
  \<^verbatim>\<open>SIG\<close> of the macro is not one of them, since \<^verbatim>\<open>saved_SIG\<close> is a single token. So all five
  declarations, and the five lines each of \<^verbatim>\<open>reset_signal_handler\<close> and
  \<^verbatim>\<open>init_signal_handler\<close>, name the one variable \<^verbatim>\<open>saved_SIG_handler\<close>.
\<close>

record sigstate =
  caught_signal :: int
  saved_SIG_handler :: handler
  disposition :: "watched \<Rightarrow> handler"
  effects :: "effect list"

text \<open>\<^verbatim>\<open>signal (SIG, h)\<close> installs \<open>h\<close> and returns the handler installed before.\<close>

definition signal :: "watched \<Rightarrow> handler \<Rightarrow> sigstate \<Rightarrow> handler \<times> sigstate" where
  "signal w h s = (disposition s w, s\<lparr>disposition := (disposition s)(w := h)\<rparr>)"

definition reset_signal_handler :: "sigstate \<Rightarrow> sigstate" where
  "reset_signal_handler s0 =
     (let s = snd (signal SIGABRT (saved_SIG_handler s0) s0);
          s = snd (signal SIGBUS (saved_SIG_handler s) s);
          s = snd (signal SIGINT (saved_SIG_handler s) s);
          s = snd (signal SIGSEGV (saved_SIG_handler s) s);
          s = snd (signal SIGTERM (saved_SIG_handler s) s)
      in s)"

definition init_signal_handler :: "sigstate \<Rightarrow> sigstate" where
  "init_signal_handler s0 =
     (let (h, s) = signal SIGABRT Catch_signal s0;
          s = s\<lparr>saved_SIG_handler := h\<rparr>;
          (h, s) = signal SIGBUS Catch_signal s;
          s = s\<lparr>saved_SIG_handler := h\<rparr>;
          (h, s) = signal SIGINT Catch_signal s;
          s = s\<lparr>saved_SIG_handler := h\<rparr>;
          (h, s) = signal SIGSEGV Catch_signal s;
          s = s\<lparr>saved_SIG_handler := h\<rparr>;
          (h, s) = signal SIGTERM Catch_signal s;
          s = s\<lparr>saved_SIG_handler := h\<rparr>
      in s)"

text \<open>
  \<^verbatim>\<open>catch_signal\<close>, lines 518 to 539, with lines 524 to 527 as \<open>signal_name\<close>; \<open>quiet\<close> is the static variable of that name. What
  \<^verbatim>\<open>raise\<close> leads to is the business of the disposition then in force and of the
  operating system; the model records the call.
\<close>

definition signal_name :: "(watched \<Rightarrow> int) \<Rightarrow> int \<Rightarrow> string" where
  "signal_name signo sig =
     (let name = ''SIGNUNKNOWN'';
          name = (if sig = signo SIGABRT then ''SIGABRT'' else name);
          name = (if sig = signo SIGBUS then ''SIGBUS'' else name);
          name = (if sig = signo SIGINT then ''SIGINT'' else name);
          name = (if sig = signo SIGSEGV then ''SIGSEGV'' else name);
          name = (if sig = signo SIGTERM then ''SIGTERM'' else name)
      in name)"

definition catch_signal :: "(watched \<Rightarrow> int) \<Rightarrow> bool \<Rightarrow> int \<Rightarrow> sigstate \<Rightarrow> sigstate" where
  "catch_signal signo quiet sig s0 =
     (if caught_signal s0 \<noteq> 0 then s0
      else
        let s = s0\<lparr>caught_signal := sig\<rparr>;
            name = signal_name signo sig;
            s = (if \<not> quiet then
                   s\<lparr>effects := effects s @
                     [Print_caught_signal sig name, Fflush_stdout, Satch_statistics,
                      Print_raising_signal sig name, Fflush_stdout]\<rparr>
                 else s);
            s = reset_signal_handler s
        in s\<lparr>effects := effects s @ [Raise sig]\<rparr>)"

text \<open>The handler called once for each signal number of a list, in order.\<close>

definition deliveries :: "(watched \<Rightarrow> int) \<Rightarrow> bool \<Rightarrow> int list \<Rightarrow> sigstate \<Rightarrow> sigstate" where
  "deliveries signo quiet sigs s = foldl (\<lambda>s sig. catch_signal signo quiet sig s) s sigs"

text \<open>
  The state of the signal variables when the program starts, with the dispositions \<open>d\<close>
  the process has inherited.
\<close>

definition startup :: "(watched \<Rightarrow> handler) \<Rightarrow> sigstate" where
  "startup d =
     \<lparr>caught_signal = 0, saved_SIG_handler = Null_pointer, disposition = d, effects = []\<rparr>"

definition linux_signo :: "watched \<Rightarrow> int" where
  "linux_signo w =
     (case w of SIGABRT \<Rightarrow> 6 | SIGBUS \<Rightarrow> 7 | SIGINT \<Rightarrow> 2 | SIGSEGV \<Rightarrow> 11 | SIGTERM \<Rightarrow> 15)"

subsection \<open>What the first delivery does, and the later ones\<close>

lemma reset_signal_handler_fields:
  "caught_signal (reset_signal_handler s) = caught_signal s"
  "saved_SIG_handler (reset_signal_handler s) = saved_SIG_handler s"
  "disposition (reset_signal_handler s) = (\<lambda>w. saved_SIG_handler s)"
  "effects (reset_signal_handler s) = effects s"
proof -
  show "disposition (reset_signal_handler s) = (\<lambda>w. saved_SIG_handler s)"
  proof
    fix w
    show "disposition (reset_signal_handler s) w = saved_SIG_handler s"
      by (cases w) (simp_all add: reset_signal_handler_def signal_def Let_def)
  qed
qed (simp_all add: reset_signal_handler_def signal_def Let_def)

text \<open>
  \<^verbatim>\<open>init_signal_handler\<close> installs \<^verbatim>\<open>catch_signal\<close> for the five signals; of their five
  handlers it keeps the one of \<^verbatim>\<open>SIGTERM\<close>, the last to be assigned.
\<close>

lemma init_signal_handler_fields:
  "caught_signal (init_signal_handler s) = caught_signal s"
  "saved_SIG_handler (init_signal_handler s) = disposition s SIGTERM"
  "disposition (init_signal_handler s) = (\<lambda>w. Catch_signal)"
  "effects (init_signal_handler s) = effects s"
proof -
  show "disposition (init_signal_handler s) = (\<lambda>w. Catch_signal)"
  proof
    fix w
    show "disposition (init_signal_handler s) w = Catch_signal"
      by (cases w) (simp_all add: init_signal_handler_def signal_def Let_def)
  qed
qed (simp_all add: init_signal_handler_def signal_def Let_def)

lemma catch_signal_again:
  "caught_signal s \<noteq> 0 \<Longrightarrow> catch_signal signo quiet sig s = s"
  by (simp add: catch_signal_def)

lemma caught_signal_catch_signal:
  "caught_signal s = 0 \<Longrightarrow> caught_signal (catch_signal signo quiet sig s) = sig"
  by (simp add: catch_signal_def Let_def reset_signal_handler_fields)

lemma deliveries_again:
  "caught_signal s \<noteq> 0 \<Longrightarrow> deliveries signo quiet sigs s = s"
  by (induction sigs) (simp_all add: deliveries_def catch_signal_again)

text \<open>
  Whatever signals are delivered to the handler, and however often, only the first
  delivery does anything: it sets \<^verbatim>\<open>caught_signal\<close>, prints the diagnostics once unless
  \<open>quiet\<close> is set, sets the five signals to the one saved handler and raises the same
  signal once; after it the state, and so the output, stays what the first delivery
  left. The first signal is a watched one, and signal numbers are not zero.
\<close>

lemma catch_signal_first_delivery:
  assumes "caught_signal s = 0" and "signo w \<noteq> 0"
  shows "deliveries signo quiet (signo w # sigs) s = catch_signal signo quiet (signo w) s
    \<and> caught_signal (catch_signal signo quiet (signo w) s) = signo w
    \<and> disposition (catch_signal signo quiet (signo w) s) = (\<lambda>v. saved_SIG_handler s)
    \<and> effects (catch_signal signo quiet (signo w) s) =
          effects s @
          (if quiet then []
           else [Print_caught_signal (signo w) (signal_name signo (signo w)), Fflush_stdout,
                 Satch_statistics,
                 Print_raising_signal (signo w) (signal_name signo (signo w)), Fflush_stdout]) @
          [Raise (signo w)]"
proof -
  let ?s1 = "catch_signal signo quiet (signo w) s"
  have c: "caught_signal ?s1 = signo w"
    using assms(1) by (rule caught_signal_catch_signal)
  then have "caught_signal ?s1 \<noteq> 0" using assms(2) by simp
  then have "deliveries signo quiet sigs ?s1 = ?s1" by (rule deliveries_again)
  then have d: "deliveries signo quiet (signo w # sigs) s = ?s1"
    by (simp add: deliveries_def)
  have h: "disposition ?s1 = (\<lambda>v. saved_SIG_handler s)"
    using assms(1) by (simp add: catch_signal_def Let_def reset_signal_handler_fields)
  have e: "effects ?s1 =
          effects s @
          (if quiet then []
           else [Print_caught_signal (signo w) (signal_name signo (signo w)), Fflush_stdout,
                 Satch_statistics,
                 Print_raising_signal (signo w) (signal_name signo (signo w)), Fflush_stdout]) @
          [Raise (signo w)]"
    using assms(1) by (simp add: catch_signal_def Let_def reset_signal_handler_fields)
  from d c h e show ?thesis by simp
qed

text \<open>
  So, from the start of the program, the first delivery leaves every watched signal with
  the handler that \<^verbatim>\<open>SIGTERM\<close> had before \<^verbatim>\<open>init_signal_handler\<close>: the handlers the other
  four signals had are restored only where they were the same.
\<close>

lemma disposition_after_first_delivery:
  assumes "signo w \<noteq> 0"
  shows "disposition (deliveries signo quiet (signo w # sigs) (init_signal_handler (startup d)))
    = (\<lambda>v. d SIGTERM)"
proof -
  let ?s = "init_signal_handler (startup d)"
  have 0: "caught_signal ?s = 0" by (simp add: init_signal_handler_fields startup_def)
  have "saved_SIG_handler ?s = d SIGTERM" by (simp add: init_signal_handler_fields startup_def)
  with catch_signal_first_delivery [where signo = signo and w = w and quiet = quiet
      and sigs = sigs and s = ?s, OF 0 assms]
  show ?thesis by simp
qed

text \<open>
  C8. The program starts with \<^verbatim>\<open>SIGINT\<close> ignored and the default disposition for the other
  four signals, installs its handler, and \<^verbatim>\<open>SIGINT\<close> (2 on Linux) is delivered twice, then
  \<^verbatim>\<open>SIGTERM\<close> (15). The diagnostics are printed once and the signal is raised once, by the
  first delivery, and the later deliveries do nothing. But the first delivery does not
  restore the handlers that were saved: \<^verbatim>\<open>SIGINT\<close> was ignored before the handler was
  installed and has the default disposition afterwards, that of \<^verbatim>\<open>SIGTERM\<close>.
\<close>

theorem catch_signal_resets_to_handler_of_SIGTERM:
  "disposition (startup ((\<lambda>w. SIG_DFL)(SIGINT := SIG_IGN))) SIGINT = SIG_IGN
   \<and> disposition (deliveries linux_signo False [2, 2, 15]
        (init_signal_handler (startup ((\<lambda>w. SIG_DFL)(SIGINT := SIG_IGN))))) SIGINT = SIG_DFL
   \<and> effects (deliveries linux_signo False [2, 2, 15]
        (init_signal_handler (startup ((\<lambda>w. SIG_DFL)(SIGINT := SIG_IGN))))) =
     [Print_caught_signal 2 ''SIGINT'', Fflush_stdout, Satch_statistics,
      Print_raising_signal 2 ''SIGINT'', Fflush_stdout, Raise 2]"
  by (simp add: deliveries_def catch_signal_def reset_signal_handler_def
      init_signal_handler_def startup_def signal_def signal_name_def linux_signo_def Let_def)

section \<open>The options of \<^verbatim>\<open>main\<close>: lines 555 to 590\<close>

text \<open>
  The local variables \<^verbatim>\<open>witness\<close> and \<^verbatim>\<open>logging\<close> of \<^verbatim>\<open>main\<close> and the static variables
  \<^verbatim>\<open>quiet\<close>, \<^verbatim>\<open>verbose\<close> and \<^verbatim>\<open>path\<close>. A build with \<^verbatim>\<open>NDEBUG\<close> has no \<^verbatim>\<open>logging\<close>; there
  the field stays \<open>False\<close>.
\<close>

record options =
  witness :: bool
  logging :: bool
  quiet :: bool
  verbose :: int
  path :: "string option"

text \<open>One constructor for each call of \<^verbatim>\<open>error\<close> in lines 559 to 590.\<close>

datatype option_error =
    SolverConfiguredWithoutLoggingSupport
  | InvalidCommandOption string
  | MultipleFiles string string
  | CanNotCombineQuietAndLog
  | CanNotCombineQuietAndVerbose

text \<open>What the program printed before it called \<^verbatim>\<open>exit\<close>, and the status it gave.\<close>

datatype printed = Usage | Version | Error_message option_error

datatype exit = Exit int printed

text \<open>\<^verbatim>\<open>error\<close> prints the message to \<^verbatim>\<open>stderr\<close> and calls \<^verbatim>\<open>exit (1)\<close>.\<close>

definition error :: "option_error \<Rightarrow> exit + 'a" where
  "error e = Inl (Exit 1 (Error_message e))"

text \<open>
  One round of the loop of lines 559 to 584, for the argument \<open>arg\<close>; \<open>ndebug\<close> says
  whether the program was compiled with \<^verbatim>\<open>NDEBUG\<close>.
\<close>

definition option_step :: "bool \<Rightarrow> string \<Rightarrow> options \<Rightarrow> exit + options" where
  "option_step ndebug arg opts =
     (if arg = ''-h'' then Inl (Exit 0 Usage)
      else if arg = ''--version'' then Inl (Exit 0 Version)
      else if arg = ''-n'' \<or> arg = ''--no-witness'' then Inr (opts\<lparr>witness := False\<rparr>)
      else if arg = ''-q'' \<or> arg = ''--quiet'' then Inr (opts\<lparr>quiet := True\<rparr>)
      else if arg = ''-v'' \<or> arg = ''--verbose'' then
        Inr (opts\<lparr>verbose := int32 (verbose opts + (if verbose opts < INT_MAX then 1 else 0))\<rparr>)
      else if arg = ''-l'' \<or> arg = ''--log'' then
        (if ndebug then error SolverConfiguredWithoutLoggingSupport
         else Inr (opts\<lparr>logging := True\<rparr>))
      else if take 1 arg = ''-'' then error (InvalidCommandOption arg)
      else if path opts \<noteq> None then error (MultipleFiles (the (path opts)) arg)
      else Inr (opts\<lparr>path := Some arg\<rparr>))"

text \<open>The loop over \<^verbatim>\<open>argv[1]\<close> to \<^verbatim>\<open>argv[argc - 1]\<close>.\<close>

fun options_loop :: "bool \<Rightarrow> string list \<Rightarrow> options \<Rightarrow> exit + options" where
  "options_loop ndebug [] opts = Inr opts"
| "options_loop ndebug (arg # args) opts =
     (case option_step ndebug arg opts of
        Inl e \<Rightarrow> Inl e
      | Inr opts' \<Rightarrow> options_loop ndebug args opts')"

text \<open>The variables before the loop: lines 92, 93, 79, 555 and 557.\<close>

definition default_options :: options where
  "default_options =
     \<lparr>witness = True, logging = False, quiet = False, verbose = 1, path = None\<rparr>"

text \<open>\<^verbatim>\<open>main\<close> up to line 590: the loop and the two checks after it.\<close>

definition main_options :: "bool \<Rightarrow> string list \<Rightarrow> exit + options" where
  "main_options ndebug args =
     (case options_loop ndebug args default_options of
        Inl e \<Rightarrow> Inl e
      | Inr opts \<Rightarrow>
          if \<not> ndebug \<and> quiet opts \<and> logging opts then error CanNotCombineQuietAndLog
          else if quiet opts \<and> verbose opts > 1 then error CanNotCombineQuietAndVerbose
          else Inr opts)"




text \<open>The arguments that set \<^verbatim>\<open>quiet\<close>, raise \<^verbatim>\<open>verbose\<close> and set \<^verbatim>\<open>logging\<close>.\<close>

definition quiet_arg :: "string \<Rightarrow> bool" where
  "quiet_arg arg \<longleftrightarrow> arg = ''-q'' \<or> arg = ''--quiet''"

definition verbose_arg :: "string \<Rightarrow> bool" where
  "verbose_arg arg \<longleftrightarrow> arg = ''-v'' \<or> arg = ''--verbose''"

definition log_arg :: "string \<Rightarrow> bool" where
  "log_arg arg \<longleftrightarrow> arg = ''-l'' \<or> arg = ''--log''"

text \<open>What a round of the loop that goes on to the next argument has done.\<close>

lemma option_step_Inr:
  assumes "option_step ndebug arg o1 = Inr o2"
  obtains
    (no_witness) "\<not> quiet_arg arg" "\<not> verbose_arg arg" "\<not> log_arg arg"
      "o2 = o1\<lparr>witness := False\<rparr>"
  | (quiet) "quiet_arg arg" "\<not> verbose_arg arg" "\<not> log_arg arg" "o2 = o1\<lparr>quiet := True\<rparr>"
  | (verbose) "\<not> quiet_arg arg" "verbose_arg arg" "\<not> log_arg arg"
      "o2 = o1\<lparr>verbose := int32 (verbose o1 + (if verbose o1 < INT_MAX then 1 else 0))\<rparr>"
  | (log) "\<not> quiet_arg arg" "\<not> verbose_arg arg" "log_arg arg" "\<not> ndebug"
      "o2 = o1\<lparr>logging := True\<rparr>"
  | (path) "\<not> quiet_arg arg" "\<not> verbose_arg arg" "\<not> log_arg arg"
      "o2 = o1\<lparr>path := Some arg\<rparr>"
proof -
  define h ver n nw q qq v vv l ll where
    "h = ''-h''" and "ver = ''--version''" and "n = ''-n''" and "nw = ''--no-witness''"
    and "q = ''-q''" and "qq = ''--quiet''" and "v = ''-v''" and "vv = ''--verbose''"
    and "l = ''-l''" and "ll = ''--log''"
  note defs = this
  have d: "n \<noteq> q" "n \<noteq> qq" "nw \<noteq> q" "nw \<noteq> qq" "n \<noteq> v" "n \<noteq> vv" "nw \<noteq> v" "nw \<noteq> vv"
    "n \<noteq> l" "n \<noteq> ll" "nw \<noteq> l" "nw \<noteq> ll" "q \<noteq> v" "q \<noteq> vv" "qq \<noteq> v" "qq \<noteq> vv"
    "q \<noteq> l" "q \<noteq> ll" "qq \<noteq> l" "qq \<noteq> ll" "v \<noteq> l" "v \<noteq> ll" "vv \<noteq> l" "vv \<noteq> ll"
    by (simp_all add: defs)
  have k: "quiet_arg arg = (arg = q \<or> arg = qq)" "verbose_arg arg = (arg = v \<or> arg = vv)"
    "log_arg arg = (arg = l \<or> arg = ll)"
    by (simp_all only: quiet_arg_def verbose_arg_def log_arg_def defs)
  from assms have "(if arg = h then Inl (Exit 0 Usage)
      else if arg = ver then Inl (Exit 0 Version)
      else if arg = n \<or> arg = nw then Inr (o1\<lparr>witness := False\<rparr>)
      else if arg = q \<or> arg = qq then Inr (o1\<lparr>quiet := True\<rparr>)
      else if arg = v \<or> arg = vv then
        Inr (o1\<lparr>verbose := int32 (verbose o1 + (if verbose o1 < INT_MAX then 1 else 0))\<rparr>)
      else if arg = l \<or> arg = ll then
        (if ndebug then error SolverConfiguredWithoutLoggingSupport
         else Inr (o1\<lparr>logging := True\<rparr>))
      else if take 1 arg = ''-'' then error (InvalidCommandOption arg)
      else if path o1 \<noteq> None then error (MultipleFiles (the (path o1)) arg)
      else Inr (o1\<lparr>path := Some arg\<rparr>)) = Inr o2"
    unfolding option_step_def defs .
  then consider
      "arg = n \<or> arg = nw" "o2 = o1\<lparr>witness := False\<rparr>"
    | "arg \<noteq> n" "arg \<noteq> nw" "arg = q \<or> arg = qq" "o2 = o1\<lparr>quiet := True\<rparr>"
    | "arg \<noteq> n" "arg \<noteq> nw" "arg \<noteq> q" "arg \<noteq> qq" "arg = v \<or> arg = vv"
      "o2 = o1\<lparr>verbose := int32 (verbose o1 + (if verbose o1 < INT_MAX then 1 else 0))\<rparr>"
    | "arg \<noteq> n" "arg \<noteq> nw" "arg \<noteq> q" "arg \<noteq> qq" "arg \<noteq> v" "arg \<noteq> vv"
      "arg = l \<or> arg = ll" "\<not> ndebug" "o2 = o1\<lparr>logging := True\<rparr>"
    | "arg \<noteq> n" "arg \<noteq> nw" "arg \<noteq> q" "arg \<noteq> qq" "arg \<noteq> v" "arg \<noteq> vv"
      "arg \<noteq> l" "arg \<noteq> ll" "o2 = o1\<lparr>path := Some arg\<rparr>"
    by (auto simp: error_def split: if_split_asm)
  then show thesis
  proof cases
    case 1
    with d k show ?thesis by (intro no_witness) auto
  next
    case 2
    with d k show ?thesis by (intro quiet) auto
  next
    case 3
    with d k show ?thesis by (intro verbose) auto
  next
    case 4
    with d k show ?thesis by (intro log) auto
  next
    case 5
    with d k show ?thesis by (intro path) auto
  qed
qed

lemma verbose_step:
  "1 \<le> v \<Longrightarrow> v \<le> INT_MAX \<Longrightarrow>
     v \<le> int32 (v + (if v < INT_MAX then 1 else 0))
     \<and> 1 < int32 (v + (if v < INT_MAX then 1 else 0))
     \<and> int32 (v + (if v < INT_MAX then 1 else 0)) \<le> INT_MAX"
  by (auto simp: int32_def INT_MAX_def signed_take_bit_int_eq_self)

text \<open>
  The loop as a whole: \<^verbatim>\<open>quiet\<close> and \<^verbatim>\<open>logging\<close> are set if and only if an argument asked
  for them, and \<^verbatim>\<open>verbose\<close>, which never leaves the range from 1 to \<^verbatim>\<open>INT_MAX\<close>, is above
  its start value if and only if an argument raised it.
\<close>

lemma options_loop_fields:
  "options_loop ndebug args o1 = Inr o2 \<Longrightarrow> 1 \<le> verbose o1 \<Longrightarrow> verbose o1 \<le> INT_MAX \<Longrightarrow>
     quiet o2 = (quiet o1 \<or> list_ex quiet_arg args)
     \<and> logging o2 = (logging o1 \<or> list_ex log_arg args)
     \<and> (list_ex log_arg args \<longrightarrow> \<not> ndebug)
     \<and> verbose o1 \<le> verbose o2 \<and> verbose o2 \<le> INT_MAX
     \<and> (list_ex verbose_arg args \<longrightarrow> 1 < verbose o2)
     \<and> (\<not> list_ex verbose_arg args \<longrightarrow> verbose o2 = verbose o1)"
proof (induction args arbitrary: o1)
  case Nil
  then show ?case by simp
next
  case (Cons arg args)
  from Cons.prems(1) obtain o' where step: "option_step ndebug arg o1 = Inr o'"
    and rest: "options_loop ndebug args o' = Inr o2"
    by (auto split: sum.splits)
  note vs = verbose_step [OF Cons.prems(2,3)]
  from step have o': "1 \<le> verbose o'" "verbose o' \<le> INT_MAX"
    using Cons.prems(2,3) vs by (cases rule: option_step_Inr; simp)+
  note ih = Cons.IH [OF rest o']
  from step show ?case
  proof (cases rule: option_step_Inr)
    case no_witness
    with ih show ?thesis by auto
  next
    case quiet
    with ih show ?thesis by auto
  next
    case verbose
    with ih vs show ?thesis by auto
  next
    case log
    with ih show ?thesis by auto
  next
    case path
    with ih show ?thesis by auto
  qed
qed

text \<open>
  C9. When the loop over the arguments has run to its end and an argument set
  \<^verbatim>\<open>quiet\<close>, then an argument that raised \<^verbatim>\<open>verbose\<close> ends the program with an error
  message and status 1, and so does, in a build with logging, an argument that set
  \<^verbatim>\<open>logging\<close>. The check for logging comes first, so the message names \<^verbatim>\<open>--verbose\<close>
  when no argument asked for logging.
\<close>

theorem quiet_excludes_verbose_and_log:
  assumes "options_loop ndebug args default_options = Inr opts"
    and "list_ex quiet_arg args"
  shows "(list_ex verbose_arg args \<longrightarrow>
            main_options ndebug args =
              Inl (Exit 1 (Error_message
                (if list_ex log_arg args then CanNotCombineQuietAndLog
                 else CanNotCombineQuietAndVerbose))))
       \<and> (list_ex log_arg args \<longrightarrow>
            \<not> ndebug \<and>
            main_options ndebug args = Inl (Exit 1 (Error_message CanNotCombineQuietAndLog)))"
proof -
  have v: "1 \<le> verbose default_options" "verbose default_options \<le> INT_MAX"
    by (simp_all add: default_options_def INT_MAX_def)
  note f = options_loop_fields [OF assms(1) v]
  have q: "quiet opts" using f assms(2) by simp
  have l: "logging opts = list_ex log_arg args"
    using f by (simp add: default_options_def)
  have m: "main_options ndebug args =
      (if \<not> ndebug \<and> quiet opts \<and> logging opts then error CanNotCombineQuietAndLog
       else if quiet opts \<and> verbose opts > 1 then error CanNotCombineQuietAndVerbose
       else Inr opts)"
    by (simp add: main_options_def assms(1))
  show ?thesis
    unfolding m using q l f by (auto simp: error_def)
qed

text \<open>
  Instances: \<^verbatim>\<open>satch -q -v file\<close> in either build, and \<^verbatim>\<open>satch --log f.cnf --quiet\<close> in
  a build with logging.
\<close>

theorem quiet_excludes_verbose_and_log_witness:
  "options_loop True [''-q'', ''-v'', ''file''] default_options =
      Inr \<lparr>witness = True, logging = False, quiet = True, verbose = 2, path = Some ''file''\<rparr>
   \<and> list_ex quiet_arg [''-q'', ''-v'', ''file'']
   \<and> list_ex verbose_arg [''-q'', ''-v'', ''file'']
   \<and> main_options True [''-q'', ''-v'', ''file''] =
        Inl (Exit 1 (Error_message CanNotCombineQuietAndVerbose))"
proof -
  have 1: "options_loop True [''-q'', ''-v'', ''file''] default_options =
      Inr \<lparr>witness = True, logging = False, quiet = True, verbose = 2, path = Some ''file''\<rparr>"
    by (simp add: option_step_def default_options_def int32_def INT_MAX_def)
  have 2: "list_ex quiet_arg [''-q'', ''-v'', ''file'']"
    by (simp add: quiet_arg_def)
  have 3: "list_ex verbose_arg [''-q'', ''-v'', ''file'']"
    by (simp add: verbose_arg_def)
  have 4: "\<not> list_ex log_arg [''-q'', ''-v'', ''file'']"
    by (simp add: log_arg_def)
  let ?args = "[''-q'', ''-v'', ''file'']"
  have "main_options True ?args =
      Inl (Exit 1 (Error_message
        (if list_ex log_arg ?args then CanNotCombineQuietAndLog
         else CanNotCombineQuietAndVerbose)))"
    using quiet_excludes_verbose_and_log [OF 1 2] 3 by blast
  with 4 have "main_options True ?args = Inl (Exit 1 (Error_message CanNotCombineQuietAndVerbose))"
    by (simp only: if_False)
  with 1 2 3 show ?thesis by (intro conjI)
qed

end
